theory Spec2Isabelle
  imports Complex_Main "HOL-Library.AList" "HOL-Library.Sublist"
    "HOL-Library.Char_ord" "HOL-Library.List_Lexorder"
begin

section \<open>Byte strings\<close>

text \<open>
  The scripts run under Jython 2.7 inside ImageJ, where \<^verbatim>\<open>str\<close> is a byte string.
  A string is a \<^typ>\<open>string\<close> (a list of 8-bit characters); case folding, whitespace
  and the regular-expression classes are the ASCII ones.
\<close>

definition lower_char :: "char \<Rightarrow> char" where
  "lower_char c =
     (case map_of (zip ''ABCDEFGHIJKLMNOPQRSTUVWXYZ'' ''abcdefghijklmnopqrstuvwxyz'') c of
        Some d \<Rightarrow> d
      | None \<Rightarrow> c)"

definition lower :: "string \<Rightarrow> string" where
  "lower s = map lower_char s"

text \<open>\<^verbatim>\<open>s.startswith(p)\<close>\<close>

fun startswith :: "string \<Rightarrow> string \<Rightarrow> bool" where
  "startswith s [] = True"
| "startswith [] (p # ps) = False"
| "startswith (c # cs) (p # ps) = (c = p \<and> startswith cs ps)"

text \<open>\<^verbatim>\<open>s.endswith(p)\<close>\<close>

definition endswith :: "string \<Rightarrow> string \<Rightarrow> bool" where
  "endswith s p = startswith (rev s) (rev p)"

text \<open>\<^verbatim>\<open>sub in s\<close>\<close>

fun contains :: "string \<Rightarrow> string \<Rightarrow> bool" where
  "contains [] sub = startswith [] sub"
| "contains (c # cs) sub = (startswith (c # cs) sub \<or> contains cs sub)"

text \<open>\<^verbatim>\<open>s.split(sub)[0]\<close> for a non-empty \<open>sub\<close>: the text before the first occurrence
  of \<open>sub\<close>, the whole of \<open>s\<close> when there is none.\<close>

fun before_first :: "string \<Rightarrow> string \<Rightarrow> string" where
  "before_first [] sub = []"
| "before_first (c # cs) sub =
     (if startswith (c # cs) sub then [] else c # before_first cs sub)"

text \<open>\<^verbatim>\<open>s.strip()\<close>: the whitespace of a byte string is space, tab, LF, VT, FF, CR.\<close>

definition is_space :: "char \<Rightarrow> bool" where
  "is_space c = (c \<in> set [CHR '' '', CHR 0x09, CHR 0x0A, CHR 0x0B, CHR 0x0C, CHR 0x0D])"

definition strip :: "string \<Rightarrow> string" where
  "strip s = rev (dropWhile is_space (rev (dropWhile is_space s)))"

section \<open>FracLacDataCombiner: filename recovery\<close>

subsection \<open>The two regular expressions of \<^verbatim>\<open>cleanFilename\<close>\<close>

text \<open>Case-insensitive test that \<open>s\<close> starts with the lower-case literal \<open>p\<close>.\<close>

definition istartswith :: "string \<Rightarrow> string \<Rightarrow> bool" where
  "istartswith s p = (lower (take (length p) s) = p)"

text \<open>
  \<^verbatim>\<open>re.search(r'(.+?_mask)\.?tif', s, re.IGNORECASE)\<close>.
  \<open>mask_tif rest\<close>: the tail \<^verbatim>\<open>_mask\.?tif\<close> of the pattern matches at the start of
  \<open>rest\<close>. \<open>lazy_mask acc rest\<close>: the lazy \<^verbatim>\<open>.+?\<close> has consumed \<open>acc\<close> and tries the
  tail before it consumes one more character; the dot does not match a newline.
  The result is group 1.
\<close>

definition mask_tif :: "string \<Rightarrow> bool" where
  "mask_tif rest =
     (istartswith rest ''_mask'' \<and>
      (istartswith (drop 5 rest) ''.tif'' \<or> istartswith (drop 5 rest) ''tif''))"

fun lazy_mask :: "string \<Rightarrow> string \<Rightarrow> string option" where
  "lazy_mask acc [] = None"
| "lazy_mask acc (c # cs) =
     (if mask_tif (c # cs) then Some (acc @ take 5 (c # cs))
      else if c = CHR 0x0A then None
      else lazy_mask (acc @ [c]) cs)"

definition match_mask_at :: "string \<Rightarrow> string option" where
  "match_mask_at s =
     (case s of [] \<Rightarrow> None
      | c # cs \<Rightarrow> if c = CHR 0x0A then None else lazy_mask [c] cs)"

fun search_mask :: "string \<Rightarrow> string option" where
  "search_mask [] = None"
| "search_mask (c # cs) =
     (case match_mask_at (c # cs) of Some g \<Rightarrow> Some g | None \<Rightarrow> search_mask cs)"

text \<open>
  \<^verbatim>\<open>re.search(r'([^/\\]+\.tif)', s, re.IGNORECASE)\<close>. The greedy class first consumes
  one more character and only then, on failure, tries \<^verbatim>\<open>\.tif\<close> where it stands.
\<close>

definition not_slash :: "char \<Rightarrow> bool" where
  "not_slash c = (c \<noteq> CHR ''/'' \<and> c \<noteq> CHR 0x5C)"

fun greedy_tif :: "string \<Rightarrow> string \<Rightarrow> string option" where
  "greedy_tif acc [] = None"
| "greedy_tif acc (c # cs) =
     (if not_slash c then
        (case greedy_tif (acc @ [c]) cs of
           Some r \<Rightarrow> Some r
         | None \<Rightarrow>
             if acc \<noteq> [] \<and> istartswith (c # cs) ''.tif''
             then Some (acc @ take 4 (c # cs)) else None)
      else None)"

fun search_tif :: "string \<Rightarrow> string option" where
  "search_tif [] = None"
| "search_tif (c # cs) =
     (case greedy_tif [] (c # cs) of Some r \<Rightarrow> Some r | None \<Rightarrow> search_tif cs)"

subsection \<open>\<^verbatim>\<open>cleanFilename\<close>\<close>

definition markers :: "string list" where
  "markers = [''ImageDescription'', ''Software'', ''tifffile'']"

text \<open>The loop over the markers: a marker whose halved prefix does not match falls
  through to the next marker.\<close>

fun marker_loop :: "string list \<Rightarrow> string \<Rightarrow> string option" where
  "marker_loop [] val = None"
| "marker_loop (marker # ms) val =
     (if contains val marker then
        (let before_marker = before_first val marker;
             half_len = length before_marker div 2;
             filename = take half_len before_marker
         in case search_mask filename of
              Some g \<Rightarrow> Some (g @ ''.tif'')
            | None \<Rightarrow> marker_loop ms val)
      else marker_loop ms val)"

definition cleanFilename :: "string \<Rightarrow> string" where
  "cleanFilename v =
     (if v = [] then ''unknown''
      else
        let val = strip v in
        case marker_loop markers val of
          Some r \<Rightarrow> r
        | None \<Rightarrow>
            (case search_mask val of
               Some g \<Rightarrow> g @ ''.tif''
             | None \<Rightarrow>
                 (case search_tif val of
                    Some g \<Rightarrow> g
                  | None \<Rightarrow> ''unknown_'' @ take 30 val)))"

subsection \<open>\<^verbatim>\<open>extractFilenameFromRow\<close>\<close>

text \<open>
  A row of \<^verbatim>\<open>csv.DictReader\<close> is a dictionary from header to field, listed here in
  its iteration order. A field the line is too short for is \<^verbatim>\<open>None\<close>. Rows with
  more fields than headers (the reader files them under the key \<^verbatim>\<open>None\<close>) are not
  part of this model.
\<close>

type_synonym row = "(string \<times> string option) list"

text \<open>\<^verbatim>\<open>cleanFilename\<close> at a field: \<^verbatim>\<open>None\<close> is falsy, as the empty string is.\<close>

definition cleanFilename_field :: "string option \<Rightarrow> string" where
  "cleanFilename_field value =
     (case value of None \<Rightarrow> ''unknown'' | Some v \<Rightarrow> cleanFilename v)"

text \<open>\<^verbatim>\<open>str(value)\<close>\<close>

definition str :: "string option \<Rightarrow> string" where
  "str value = (case value of None \<Rightarrow> ''None'' | Some v \<Rightarrow> v)"

text \<open>The first loop: the first key that starts with \<^verbatim>\<open>1.\<close> decides.\<close>

fun primary_loop :: "row \<Rightarrow> string option" where
  "primary_loop [] = None"
| "primary_loop ((key, value) # rest) =
     (if startswith key ''1.'' then Some (cleanFilename_field value)
      else primary_loop rest)"

text \<open>The second loop: the first value with a mask or extension token whose cleaned
  form is non-empty and does not start with \<^verbatim>\<open>unknown\<close>.\<close>

fun scan_loop :: "row \<Rightarrow> string option" where
  "scan_loop [] = None"
| "scan_loop ((key, value) # rest) =
     (let value_str = str value in
      if contains (lower value_str) ''_mask'' \<or> contains (lower value_str) ''.tif'' then
        (let result = cleanFilename value_str in
         if result \<noteq> [] \<and> \<not> startswith result ''unknown'' then Some result
         else scan_loop rest)
      else scan_loop rest)"

definition extractFilenameFromRow :: "row \<Rightarrow> string" where
  "extractFilenameFromRow r =
     (case primary_loop r of
        Some result \<Rightarrow> result
      | None \<Rightarrow> (case scan_loop r of Some result \<Rightarrow> result | None \<Rightarrow> ''unknown''))"

section \<open>FracLacDataCombiner: column mapping, row extraction, merging\<close>

text \<open>
  A dictionary with string keys is an association list with distinct keys, in iteration
  order; \<^const>\<open>map_of\<close> reads it and \<^const>\<open>AList.update\<close> is \<^verbatim>\<open>d[k] = v\<close>
  (an existing key keeps its place, a new key goes last).
\<close>

type_synonym pydict = "(string \<times> string) list"

text \<open>\<^verbatim>\<open>d.update(e)\<close>\<close>

fun dict_update :: "pydict \<Rightarrow> pydict \<Rightarrow> pydict" where
  "dict_update d [] = d"
| "dict_update d ((k, v) # e) = dict_update (AList.update k v d) e"

text \<open>The prefix table of \<^verbatim>\<open>main\<close>, in its declared order.\<close>

definition column_map :: "pydict" where
  "column_map =
     [(''6.'', ''fractal_dimension''),
      (''87.'', ''lacunarity''),
      (''131.'', ''density''),
      (''132.'', ''span_ratio''),
      (''134.'', ''maximum_span_across_hull''),
      (''135.'', ''convex_hull_area''),
      (''136.'', ''convex_hull_perimeter''),
      (''137.'', ''convex_hull_circularity''),
      (''140.'', ''maximum_radius_from_hulls_centre_of_mass''),
      (''141.'', ''max_min_radii''),
      (''142.'', ''cv_for_all_radii''),
      (''143.'', ''mean_radius''),
      (''145.'', ''diameter_of_bounding_circle''),
      (''146.'', ''maximum_radius_from_circles_centre''),
      (''147.'', ''max_min_radii_from_circles_centre''),
      (''148.'', ''cv_for_all_radii_from_circles_centre''),
      (''149.'', ''mean_radius_from_circles_centre'')]"

text \<open>The inner loop of the column mapping: the first header that starts with the
  pattern, where the loop breaks.\<close>

fun first_match :: "string \<Rightarrow> string list \<Rightarrow> string option" where
  "first_match pattern [] = None"
| "first_match pattern (col # cols) =
     (if startswith col pattern then Some col else first_match pattern cols)"

text \<open>The outer loop, over the items of the prefix table; \<open>actual\<close> is
  \<^verbatim>\<open>actualColumns\<close>, keyed by raw header.\<close>

fun build_columns :: "pydict \<Rightarrow> string list \<Rightarrow> pydict \<Rightarrow> pydict" where
  "build_columns [] fieldnames actual = actual"
| "build_columns ((pattern, name) # cm) fieldnames actual =
     build_columns cm fieldnames
       (case first_match pattern fieldnames of
          Some col \<Rightarrow> AList.update col name actual
        | None \<Rightarrow> actual)"

definition actualColumns :: "pydict \<Rightarrow> string list \<Rightarrow> pydict" where
  "actualColumns cm fieldnames = build_columns cm fieldnames []"

text \<open>The measurements of one row, written into the record \<open>rec\<close> of its specimen.\<close>

fun extract_measurements :: "row \<Rightarrow> pydict \<Rightarrow> pydict \<Rightarrow> pydict" where
  "extract_measurements r [] rec = rec"
| "extract_measurements r ((col, newName) # acs) rec =
     extract_measurements r acs
       (case map_of r col of
          Some (Some value) \<Rightarrow>
            if value \<noteq> [] \<and> value \<noteq> ''Not Calculated'' \<and> strip value \<noteq> []
            then AList.update newName value rec else rec
        | _ \<Rightarrow> rec)"

type_synonym table = "(string \<times> pydict) list"

text \<open>The body of the loop over the rows.\<close>

definition add_row :: "pydict \<Rightarrow> row \<Rightarrow> table \<Rightarrow> table" where
  "add_row actual r data =
     (let filename = extractFilenameFromRow r in
      case map_of data filename of
        None \<Rightarrow>
          AList.update filename
            (extract_measurements r actual [(''filename'', filename)]) data
      | Some rec \<Rightarrow>
          AList.update filename (extract_measurements r actual rec) data)"

text \<open>
  What reading a file yields: opening it raises, or it opens with its header
  (\<^verbatim>\<open>None\<close> for an empty file) and the reader then yields rows until it is exhausted
  or raises. Every \<^verbatim>\<open>Exception\<close> is caught by the one handler of
  \<^verbatim>\<open>processFracLacFile\<close>, which prints it and returns \<^verbatim>\<open>data\<close> as it stands.
\<close>

datatype row_event = Row row | ReadFails string

datatype source_file = OpenFails string | Opened "string list option" "row_event list"

definition error_line :: "string \<Rightarrow> string" where
  "error_line e = ''  ERROR: '' @ e"

fun read_rows :: "pydict \<Rightarrow> row_event list \<Rightarrow> table \<Rightarrow> table \<times> string list" where
  "read_rows actual [] data = (data, [])"
| "read_rows actual (Row r # evs) data = read_rows actual evs (add_row actual r data)"
| "read_rows actual (ReadFails e # evs) data = (data, [error_line e])"

definition processFracLacFile :: "source_file \<Rightarrow> pydict \<Rightarrow> table \<times> string list" where
  "processFracLacFile file cm =
     (case file of
        OpenFails e \<Rightarrow> ([], [error_line e])
      | Opened None evs \<Rightarrow>
          if cm = [] then read_rows [] evs []
          else ([], [error_line (CHR 0x27 # ''NoneType'' @ CHR 0x27 # '' object is not iterable'')])
      | Opened (Some fieldnames) evs \<Rightarrow> read_rows (actualColumns cm fieldnames) evs [])"

text \<open>The merge of \<^verbatim>\<open>main\<close>: one item of \<^verbatim>\<open>folderData\<close>, then all of them.\<close>

definition merge_record :: "table \<Rightarrow> string \<times> pydict \<Rightarrow> table" where
  "merge_record allData item =
     (case item of (filename, measurements) \<Rightarrow>
        (case map_of allData filename of
           Some existing \<Rightarrow>
             AList.update filename (dict_update existing measurements) allData
         | None \<Rightarrow> AList.update filename measurements allData))"

fun merge_folder :: "table \<Rightarrow> table \<Rightarrow> table" where
  "merge_folder allData [] = allData"
| "merge_folder allData (item # folderData) =
     merge_folder (merge_record allData item) folderData"

text \<open>
  The loop over the folders, already sorted; a folder is its box-count summary file, or
  \<^verbatim>\<open>None\<close> when it has none (a warning, and the loop continues). The state is the
  table and the lines printed by the handler.
\<close>

fun process_folders ::
  "source_file option list \<Rightarrow> table \<times> string list \<Rightarrow> table \<times> string list" where
  "process_folders [] st = st"
| "process_folders (None # fs) st = process_folders fs st"
| "process_folders (Some file # fs) (allData, out) =
     (case processFracLacFile file column_map of
        (folderData, errs) \<Rightarrow>
          process_folders fs (merge_folder allData folderData, out @ errs))"

text \<open>The rows of the combined CSV, in the order they are written.\<close>

definition sorted_keys :: "table \<Rightarrow> string list" where
  "sorted_keys allData = sort (map fst allData)"

definition written_rows :: "table \<Rightarrow> pydict list" where
  "written_rows allData = List.map_filter (map_of allData) (sorted_keys allData)"

text \<open>The specimen keys one folder contributes.\<close>

definition folder_keys :: "source_file option \<Rightarrow> string set" where
  "folder_keys f =
     (case f of None \<Rightarrow> {} | Some file \<Rightarrow> fst ` set (fst (processFracLacFile file column_map)))"

section \<open>FracLacPrep: \<^verbatim>\<open>analyzeSkeleton\<close>\<close>

subsection \<open>Cell name\<close>

text \<open>
  The three substitutions \<^verbatim>\<open>re.sub(P + '$', '', baseName)\<close>. Each pattern is
  case-sensitive and ends in the literal \<^verbatim>\<open>_mask\.tif\<close>; \<^verbatim>\<open>$\<close> matches at the end
  of the string and before a newline that ends the string, so the match is looked for at
  the end of \<open>body\<close>, the string without such a newline, and the newline stays.
  \<^verbatim>\<open>\d\<close> is an ASCII digit.
\<close>

definition is_digit :: "char \<Rightarrow> bool" where
  "is_digit c = (c \<in> set ''0123456789'')"

definition split_dollar :: "string \<Rightarrow> string \<times> string" where
  "split_dollar s =
     (if s \<noteq> [] \<and> last s = CHR 0x0A then (butlast s, [CHR 0x0A]) else (s, []))"

text \<open>\<^verbatim>\<open>s[:-n]\<close> for \<open>n \<le> len(s)\<close>\<close>

definition chop :: "nat \<Rightarrow> string \<Rightarrow> string" where
  "chop n s = take (length s - n) s"

text \<open>\<^verbatim>\<open>re.sub(r'_mask\.tif$', '', s)\<close>\<close>

definition sub_mask :: "string \<Rightarrow> string" where
  "sub_mask s =
     (case split_dollar s of (body, nl) \<Rightarrow>
        if endswith body ''_mask.tif'' then chop 9 body @ nl else s)"

text \<open>\<^verbatim>\<open>re.sub(r'_area\d+_mask\.tif$', '', s)\<close>: the digits are the whole run of digits
  before \<^verbatim>\<open>_mask.tif\<close>, since \<^verbatim>\<open>_area\<close> ends in a letter.\<close>

definition sub_area_digits :: "string \<Rightarrow> string" where
  "sub_area_digits s =
     (case split_dollar s of (body, nl) \<Rightarrow>
        if endswith body ''_mask.tif'' then
          (let pre = chop 9 body;
               digits = takeWhile is_digit (rev pre);
               front = chop (length digits) pre
           in if digits \<noteq> [] \<and> endswith front ''_area'' then chop 5 front @ nl else s)
        else s)"

text \<open>\<^verbatim>\<open>re.sub(r'_area[3-8]\d{2}_mask\.tif$', '', s)\<close>\<close>

definition sub_area_3to8 :: "string \<Rightarrow> string" where
  "sub_area_3to8 s =
     (case split_dollar s of (body, nl) \<Rightarrow>
        if endswith body ''_mask.tif'' then
          (let pre = chop 9 body;
               front = chop 3 pre
           in case drop (length pre - 3) pre of
                [d0, d1, d2] \<Rightarrow>
                  if d0 \<in> set ''345678'' \<and> is_digit d1 \<and> is_digit d2 \<and>
                     endswith front ''_area''
                  then chop 5 front @ nl else s
              | _ \<Rightarrow> s)
        else s)"

definition cellName :: "string \<Rightarrow> string" where
  "cellName baseName =
     (let c1 = sub_area_3to8 baseName;
          c2 = (if c1 = baseName then sub_area_digits baseName else c1);
          c3 = (if c2 = baseName \<or> endswith c2 ''_mask'' then sub_mask baseName else c2)
      in c3)"

subsection \<open>Skeleton metrics\<close>

text \<open>
  Numbers are real numbers here: the model states which formula the code evaluates,
  not how a double rounds it. What \<^verbatim>\<open>result.getAverageBranchLength()\<close> does is an
  input: it raises, or returns \<^verbatim>\<open>None\<close>, or returns an array.
\<close>

datatype avg_answer = Raises | ReturnsNone | Returns "real list"

text \<open>\<^verbatim>\<open>int(a[0]) if len(a) > 0 else 0\<close>\<close>

definition first_or_zero :: "int list \<Rightarrow> int" where
  "first_or_zero a = (case a of [] \<Rightarrow> 0 | x # _ \<Rightarrow> x)"

definition avgBranchLength :: "avg_answer \<Rightarrow> int \<Rightarrow> int \<Rightarrow> real \<Rightarrow> real" where
  "avgBranchLength answer numBranches numSlabVoxels pixelSize =
     (case answer of
        Returns (x # _) \<Rightarrow> x
      | Returns [] \<Rightarrow> 0
      | ReturnsNone \<Rightarrow> 0
      | Raises \<Rightarrow>
          if numBranches > 0 \<and> numSlabVoxels > 0
          then (real_of_int numSlabVoxels * pixelSize) / real_of_int numBranches
          else 0)"

definition totalSkeletonLength :: "real \<Rightarrow> int \<Rightarrow> int \<Rightarrow> real \<Rightarrow> real" where
  "totalSkeletonLength avg numBranches numSlabVoxels pixelSize =
     (if avg > 0 \<and> numBranches > 0 then avg * real_of_int numBranches
      else real_of_int numSlabVoxels * pixelSize)"

text \<open>\<^verbatim>\<open>maskArea\<close> and \<^verbatim>\<open>skeletonArea\<close>: a pixel count times the squared pixel size.\<close>

definition area :: "nat \<Rightarrow> real \<Rightarrow> real" where
  "area pixelCount pixelSize = real pixelCount * (pixelSize * pixelSize)"

definition branching_density :: "real \<Rightarrow> real \<Rightarrow> real" where
  "branching_density maskArea skeletonArea =
     (if maskArea > 0 then skeletonArea / maskArea else 0)"

text \<open>The part of \<^verbatim>\<open>analyzeSkeleton\<close> after the external calls: their answers in, the
  derived entries of \<^verbatim>\<open>metrics\<close> out.\<close>

record analyzer_output =
  branches :: "int list"
  slabVoxels :: "int list"
  averageBranchLength :: avg_answer
  maskPixelCount :: nat
  skelPixelCount :: nat

record metrics =
  cell_name :: string
  num_branches :: int
  num_slab_voxels :: int
  avg_branch_length_um :: real
  total_skeleton_length_um :: real
  mask_area_um2 :: real
  skeleton_area_um2 :: real
  branching_density_of :: real

definition analyzeSkeleton :: "string \<Rightarrow> real \<Rightarrow> analyzer_output \<Rightarrow> metrics" where
  "analyzeSkeleton baseName pixelSize r =
     (let maskArea = area (maskPixelCount r) pixelSize;
          numBranches = first_or_zero (branches r);
          numSlabVoxels = first_or_zero (slabVoxels r);
          avg = avgBranchLength (averageBranchLength r) numBranches numSlabVoxels pixelSize;
          skeletonArea = area (skelPixelCount r) pixelSize
      in \<lparr> cell_name = cellName baseName,
           num_branches = numBranches,
           num_slab_voxels = numSlabVoxels,
           avg_branch_length_um = avg,
           total_skeleton_length_um =
             totalSkeletonLength avg numBranches numSlabVoxels pixelSize,
           mask_area_um2 = maskArea,
           skeleton_area_um2 = skeletonArea,
           branching_density_of = branching_density maskArea skeletonArea \<rparr>)"

section \<open>Properties of the skeleton metrics\<close>

lemmas cellName_defs =
  cellName_def sub_area_3to8_def sub_area_digits_def sub_mask_def split_dollar_def
  endswith_def chop_def is_digit_def

text \<open>
  C5, as the code has it. The average branch length is the analyzer's value when the
  call returns a non-empty array, and 0 when the call returns \<^verbatim>\<open>None\<close> or an empty
  array. Only when the call raises is the fallback used: with a non-negative slab-voxel
  count it is (slab-voxel count \<times> scale) / branch count when the branch count is
  positive and 0 otherwise; for 4 branches, 40 slab voxels and scale 0.5 it is 5.
\<close>

theorem avg_branch_length_cases:
  "avgBranchLength (Returns (x # xs)) numBranches numSlabVoxels pixelSize = x \<and>
   avgBranchLength (Returns []) numBranches numSlabVoxels pixelSize = 0 \<and>
   avgBranchLength ReturnsNone numBranches numSlabVoxels pixelSize = 0 \<and>
   (0 \<le> numSlabVoxels \<longrightarrow>
      avgBranchLength Raises numBranches numSlabVoxels pixelSize =
        (if numBranches > 0
         then (real_of_int numSlabVoxels * pixelSize) / real_of_int numBranches
         else 0)) \<and>
   avgBranchLength Raises 4 40 (1 / 2) = 5"
  by (auto simp: avgBranchLength_def)

theorem avg_branch_length_cases_witness:
  "(0::int) \<le> 40 \<and>
   avgBranchLength Raises 4 40 (1 / 2) = (real_of_int 40 * (1 / 2)) / real_of_int 4"
  using avg_branch_length_cases [of 0 "[]" 4 40 "1 / 2"] by simp

text \<open>
  C5 as the specification words it fails when the analyzer answers with an empty array:
  no average is reported, the branch count is positive, and the result is 0, not the
  fallback quotient.
\<close>

theorem avg_branch_length_empty_answer:
  "avgBranchLength (Returns []) 4 40 (1 / 2) \<noteq> (real_of_int 40 * (1 / 2)) / real_of_int 4"
  by (simp add: avgBranchLength_def)

text \<open>
  C8. The branching density of a mask is skeleton area / mask area when the mask area
  is positive, and exactly 0 when the mask area is 0, whatever the skeleton area; this
  is the entry \<^verbatim>\<open>analyzeSkeleton\<close> stores, a mask without foreground pixels gets
  density 0, and a mask area is never negative, so the two cases are all there are.
\<close>

theorem branching_density_guard:
  "(0 < maskArea \<longrightarrow> branching_density maskArea skeletonArea = skeletonArea / maskArea) \<and>
   branching_density 0 skeletonArea = 0 \<and>
   branching_density_of (analyzeSkeleton baseName pixelSize r) =
     branching_density (area (maskPixelCount r) pixelSize)
       (area (skelPixelCount r) pixelSize) \<and>
   (maskPixelCount r = 0 \<longrightarrow> branching_density_of (analyzeSkeleton baseName pixelSize r) = 0) \<and>
   0 \<le> area (maskPixelCount r) pixelSize"
  by (simp add: branching_density_def analyzeSkeleton_def area_def Let_def)

theorem branching_density_guard_witness:
  "(0::real) < 4 \<and> branching_density 4 2 = 2 / 4 \<and>
   branching_density_of
     (analyzeSkeleton ''m.tif'' 1
        \<lparr> branches = [], slabVoxels = [], averageBranchLength = Raises,
          maskPixelCount = 0, skelPixelCount = 7 \<rparr>) = 0"
  using branching_density_guard [of 4 2 "''m.tif''" 1
      "\<lparr> branches = [], slabVoxels = [], averageBranchLength = Raises,
         maskPixelCount = 0, skelPixelCount = 7 \<rparr>"]
  by simp

text \<open>The three examples of the specification for the cell name.\<close>

lemma cellName_examples:
  "cellName ''sample1_area455_mask.tif'' = ''sample1'' \<and>
   cellName ''sample2_mask.tif'' = ''sample2'' \<and>
   cellName ''plainfile.tif'' = ''plainfile.tif''"
  by (simp add: cellName_defs)

text \<open>
  C9. A mask whose stem itself ends in \<^verbatim>\<open>_mask\<close>: the first substitution strips
  \<^verbatim>\<open>_area455_mask.tif\<close> and leaves \<^verbatim>\<open>foo_mask\<close>, and the last test, which also fires
  when the name so far ends in \<^verbatim>\<open>_mask\<close>, replaces it by the file name without
  \<^verbatim>\<open>_mask.tif\<close> only, so the area suffix stays in the cell name.
\<close>

theorem cellName_mask_stem:
  "sub_area_3to8 ''foo_mask_area455_mask.tif'' = ''foo_mask'' \<and>
   cellName ''foo_mask_area455_mask.tif'' = ''foo_mask_area455''"
  by (simp add: cellName_defs)

section \<open>Properties of the filename recovery\<close>

lemmas clean_defs =
  cleanFilename_def markers_def strip_def is_space_def match_mask_at_def mask_tif_def
  istartswith_def lower_def lower_char_def not_slash_def

text \<open>
  C7. On \<^verbatim>\<open>xyz_mask.tif_mask.tifImageDescriptionjunk\<close> the marker
  \<^verbatim>\<open>ImageDescription\<close> is found, the text before it has 21 characters and its first
  half, 10 characters by integer floor, is \<^verbatim>\<open>xyz_mask.t\<close>; the recovered key is
  \<^verbatim>\<open>xyz_mask.tif\<close>. (The halved text has no match of its own: the key comes from the
  match on the whole value, tried next.)
\<close>

theorem marker_example:
  "contains ''xyz_mask.tif_mask.tifImageDescriptionjunk'' ''ImageDescription'' \<and>
   before_first ''xyz_mask.tif_mask.tifImageDescriptionjunk'' ''ImageDescription'' =
     ''xyz_mask.tif_mask.tif'' \<and>
   take (length ''xyz_mask.tif_mask.tif'' div 2) ''xyz_mask.tif_mask.tif'' = ''xyz_mask.t'' \<and>
   search_mask ''xyz_mask.t'' = None \<and>
   cleanFilename ''xyz_mask.tif_mask.tifImageDescriptionjunk'' = ''xyz_mask.tif''"
  by (simp add: clean_defs)

subsection \<open>Idempotence on resolved keys\<close>

lemma istartswith_length: "istartswith s p \<Longrightarrow> length p \<le> length s"
proof -
  assume "istartswith s p"
  then have "length (lower (take (length p) s)) = length p"
    by (simp add: istartswith_def)
  then show ?thesis by (simp add: lower_def)
qed

lemma istartswith_append: "istartswith s p \<Longrightarrow> istartswith (s @ t) p"
  using istartswith_length [of s p] by (simp add: istartswith_def)

lemma istartswith_take: "length p \<le> n \<Longrightarrow> istartswith (take n s) p = istartswith s p"
  by (simp add: istartswith_def min_def)

lemma mask_tif_length: "mask_tif s \<Longrightarrow> 8 \<le> length s"
  unfolding mask_tif_def
  using istartswith_length [of s "''_mask''"] istartswith_length [of "drop 5 s" "''.tif''"]
    istartswith_length [of "drop 5 s" "''tif''"]
  by auto

lemma mask_tif_append: "mask_tif s \<Longrightarrow> mask_tif (s @ t)"
proof -
  assume m: "mask_tif s"
  then have "5 \<le> length s" using mask_tif_length [of s] by simp
  then have "drop 5 (s @ t) = drop 5 s @ t" by simp
  with m show ?thesis
    unfolding mask_tif_def by (auto intro: istartswith_append)
qed

lemma mask_tif_take: "9 \<le> n \<Longrightarrow> mask_tif (take n s) = mask_tif s"
  by (simp add: mask_tif_def istartswith_take drop_take)

lemma mask_tif_cut: "9 \<le> length s \<Longrightarrow> mask_tif (s @ t) = mask_tif s"
  using mask_tif_take [of "length s" "s @ t"] by simp

lemma mask_tif_shifted:
  assumes "lower M = ''_mask''" "B \<noteq> []"
  shows "mask_tif (B @ M @ X) = mask_tif (B @ M @ Y)"
proof (cases "4 \<le> length B")
  case True
  from assms(1) have "length M = 5" by (auto simp: lower_def)
  with True have "9 \<le> length (B @ M)" by simp
  then have "mask_tif ((B @ M) @ X) = mask_tif (B @ M)" "mask_tif ((B @ M) @ Y) = mask_tif (B @ M)"
    by (rule mask_tif_cut)+
  then show ?thesis by simp
next
  case False
  from assms(1) obtain m0 m1 m2 m3 m4 where M: "M = [m0, m1, m2, m3, m4]"
    and l: "lower_char m0 = CHR ''_''"
    by (auto simp: lower_def)
  from False assms(2) consider b1 where "B = [b1]" | b1 b2 where "B = [b1, b2]"
    | b1 b2 b3 where "B = [b1, b2, b3]"
    by (cases B; cases "tl B"; cases "tl (tl B)"; cases "tl (tl (tl B))") auto
  then have "\<not> mask_tif (B @ M @ Z)" for Z
    by cases (auto simp: M l mask_tif_def istartswith_def lower_def)
  then show ?thesis by simp
qed

lemma lazy_mask_SomeD:
  "lazy_mask acc rest = Some g \<Longrightarrow>
   \<exists>X Y. rest = X @ Y \<and> g = acc @ X @ take 5 Y \<and> mask_tif Y \<and> CHR 0x0A \<notin> set X \<and>
     (\<forall>X1 X2. X = X1 @ X2 \<and> X2 \<noteq> [] \<longrightarrow> \<not> mask_tif (X2 @ Y))"
proof (induction rest arbitrary: acc)
  case Nil
  then show ?case by simp
next
  case (Cons c cs)
  show ?case
  proof (cases "mask_tif (c # cs)")
    case True
    with Cons.prems have "g = acc @ [] @ take 5 (c # cs)" by simp
    with True show ?thesis by (intro exI [of _ "[]"] exI [of _ "c # cs"]) simp
  next
    case False
    with Cons.prems have c: "c \<noteq> CHR 0x0A" and "lazy_mask (acc @ [c]) cs = Some g"
      by (auto split: if_splits)
    from Cons.IH [OF this(2)] obtain X Y where
      xy: "cs = X @ Y" "g = (acc @ [c]) @ X @ take 5 Y" "mask_tif Y" "CHR 0x0A \<notin> set X"
      and early: "\<forall>X1 X2. X = X1 @ X2 \<and> X2 \<noteq> [] \<longrightarrow> \<not> mask_tif (X2 @ Y)"
      by blast
    have "\<not> mask_tif (X2 @ Y)" if "c # X = X1 @ X2" "X2 \<noteq> []" for X1 X2
    proof (cases X1)
      case Nil
      with that xy(1) False show ?thesis by auto
    next
      case (Cons a list)
      with that early show ?thesis by simp
    qed
    with xy c show ?thesis
      by (intro exI [of _ "c # X"] exI [of _ Y]) simp
  qed
qed

lemma lazy_mask_SomeI:
  "mask_tif Y \<Longrightarrow> CHR 0x0A \<notin> set X \<Longrightarrow>
   (\<And>X1 X2. X = X1 @ X2 \<Longrightarrow> X2 \<noteq> [] \<Longrightarrow> \<not> mask_tif (X2 @ Y)) \<Longrightarrow>
   lazy_mask acc (X @ Y) = Some (acc @ X @ take 5 Y)"
proof (induction X arbitrary: acc)
  case Nil
  from Nil(1) have "Y \<noteq> []" using mask_tif_length [of Y] by auto
  then obtain c cs where "Y = c # cs" by (cases Y) auto
  with Nil(1) show ?case by simp
next
  case (Cons x X)
  have "\<not> mask_tif (x # X @ Y)" using Cons.prems(3) [of "[]" "x # X"] by simp
  moreover have "x \<noteq> CHR 0x0A" using Cons.prems(2) by auto
  moreover have "lazy_mask (acc @ [x]) (X @ Y) = Some ((acc @ [x]) @ X @ take 5 Y)"
  proof (rule Cons.IH)
    show "mask_tif Y" by fact
    show "CHR 0x0A \<notin> set X" using Cons.prems(2) by simp
    fix X1 X2 assume "X = X1 @ X2" "X2 \<noteq> []"
    then show "\<not> mask_tif (X2 @ Y)" using Cons.prems(3) [of "x # X1" X2] by simp
  qed
  ultimately show ?case by simp
qed

lemma lazy_mask_exists:
  "mask_tif Y \<Longrightarrow> CHR 0x0A \<notin> set X \<Longrightarrow> lazy_mask acc (X @ Y) \<noteq> None"
proof (induction X arbitrary: acc)
  case Nil
  from Nil(1) have "Y \<noteq> []" using mask_tif_length [of Y] by auto
  then obtain c cs where "Y = c # cs" by (cases Y) auto
  with Nil(1) show ?case by simp
next
  case (Cons x X)
  then show ?case by auto
qed

lemma search_mask_SomeD:
  "search_mask w = Some g \<Longrightarrow>
   \<exists>pre c X Y. w = pre @ c # X @ Y \<and> c \<noteq> CHR 0x0A \<and> g = c # X @ take 5 Y \<and> mask_tif Y \<and>
     CHR 0x0A \<notin> set X \<and> (\<forall>X1 X2. X = X1 @ X2 \<and> X2 \<noteq> [] \<longrightarrow> \<not> mask_tif (X2 @ Y))"
proof (induction w)
  case Nil
  then show ?case by simp
next
  case (Cons a w)
  show ?case
  proof (cases "match_mask_at (a # w)")
    case None
    with Cons.prems have "search_mask w = Some g" by simp
    from Cons.IH [OF this] obtain pre c X Y where
      "w = pre @ c # X @ Y \<and> c \<noteq> CHR 0x0A \<and> g = c # X @ take 5 Y \<and> mask_tif Y \<and>
       CHR 0x0A \<notin> set X \<and> (\<forall>X1 X2. X = X1 @ X2 \<and> X2 \<noteq> [] \<longrightarrow> \<not> mask_tif (X2 @ Y))"
      by blast
    then have "a # w = (a # pre) @ c # X @ Y \<and> c \<noteq> CHR 0x0A \<and> g = c # X @ take 5 Y \<and>
       mask_tif Y \<and> CHR 0x0A \<notin> set X \<and>
       (\<forall>X1 X2. X = X1 @ X2 \<and> X2 \<noteq> [] \<longrightarrow> \<not> mask_tif (X2 @ Y))"
      by simp
    then show ?thesis by blast
  next
    case (Some g')
    with Cons.prems have g: "g' = g" by simp
    from Some have a: "a \<noteq> CHR 0x0A" and "lazy_mask [a] w = Some g'"
      by (auto simp: match_mask_at_def split: if_splits)
    from lazy_mask_SomeD [OF this(2)] g obtain X Y where
      "w = X @ Y \<and> g = [a] @ X @ take 5 Y \<and> mask_tif Y \<and> CHR 0x0A \<notin> set X \<and>
       (\<forall>X1 X2. X = X1 @ X2 \<and> X2 \<noteq> [] \<longrightarrow> \<not> mask_tif (X2 @ Y))"
      by blast
    with a have "a # w = [] @ a # X @ Y \<and> a \<noteq> CHR 0x0A \<and> g = a # X @ take 5 Y \<and>
       mask_tif Y \<and> CHR 0x0A \<notin> set X \<and>
       (\<forall>X1 X2. X = X1 @ X2 \<and> X2 \<noteq> [] \<longrightarrow> \<not> mask_tif (X2 @ Y))"
      by simp
    then show ?thesis by blast
  qed
qed

lemma search_mask_exists:
  "c \<noteq> CHR 0x0A \<Longrightarrow> CHR 0x0A \<notin> set X \<Longrightarrow> mask_tif Y \<Longrightarrow>
   search_mask (pre @ c # X @ Y) \<noteq> None"
proof (induction pre)
  case Nil
  from lazy_mask_exists [OF Nil(3) Nil(2), of "[c]"] Nil(1) show ?case
    by (auto simp: match_mask_at_def)
next
  case (Cons a pre)
  then show ?case by (auto split: option.splits)
qed

text \<open>A string without a match has no match in any of its substrings.\<close>

lemma search_mask_None_sub:
  assumes "search_mask (a @ s @ b) = None"
  shows "search_mask s = None"
proof (rule ccontr)
  assume "search_mask s \<noteq> None"
  then obtain g where "search_mask s = Some g" by auto
  from search_mask_SomeD [OF this] obtain pre c X Y where
    s: "s = pre @ c # X @ Y" and c: "c \<noteq> CHR 0x0A" and X: "CHR 0x0A \<notin> set X"
    and Y: "mask_tif Y" by blast
  from Y have "mask_tif (Y @ b)" by (rule mask_tif_append)
  with c X have "search_mask ((a @ pre) @ c # X @ (Y @ b)) \<noteq> None"
    by (rule search_mask_exists)
  with assms s show False by simp
qed

text \<open>The shape of group 1: what \<open>search_mask\<close> returns is found again, as it is, at the
  start of the returned name.\<close>

lemma lower_take5: "mask_tif Y \<Longrightarrow> lower (take 5 Y) = ''_mask''"
  by (simp add: mask_tif_def istartswith_def eval_nat_numeral)

lemma mask_tif_literal: "lower M = ''_mask'' \<Longrightarrow> mask_tif (M @ ''.tif'')"
proof -
  assume l: "lower M = ''_mask''"
  then have "length M = 5" by (auto simp: lower_def)
  with l show ?thesis by (simp add: mask_tif_def istartswith_def lower_def lower_char_def)
qed

lemma match_mask_at_result:
  assumes "search_mask w = Some g"
  shows "match_mask_at (g @ ''.tif'') = Some g"
proof -
  from search_mask_SomeD [OF assms] obtain pre c X Y where
    c: "c \<noteq> CHR 0x0A" and g: "g = c # X @ take 5 Y" and Y: "mask_tif Y"
    and X: "CHR 0x0A \<notin> set X"
    and early: "\<forall>X1 X2. X = X1 @ X2 \<and> X2 \<noteq> [] \<longrightarrow> \<not> mask_tif (X2 @ Y)" by blast
  let ?M = "take 5 Y"
  have M: "lower ?M = ''_mask''" using Y by (rule lower_take5)
  have Ys: "Y = ?M @ drop 5 Y" by simp
  have "lazy_mask [c] (X @ (?M @ ''.tif'')) = Some ([c] @ X @ take 5 (?M @ ''.tif''))"
  proof (rule lazy_mask_SomeI)
    show "mask_tif (?M @ ''.tif'')" using M by (rule mask_tif_literal)
    show "CHR 0x0A \<notin> set X" by fact
    fix X1 X2 assume x: "X = X1 @ X2" "X2 \<noteq> []"
    have "mask_tif (X2 @ ?M @ ''.tif'') = mask_tif (X2 @ ?M @ drop 5 Y)"
      using M x(2) by (rule mask_tif_shifted)
    also have "\<dots> = mask_tif (X2 @ Y)" by simp
    finally show "\<not> mask_tif (X2 @ ?M @ ''.tif'')" using early x by blast
  qed
  moreover have "length ?M = 5" using mask_tif_length [OF Y] by simp
  ultimately show ?thesis using c g by (simp add: match_mask_at_def)
qed

lemma search_mask_result:
  assumes "search_mask w = Some g"
  shows "search_mask (g @ ''.tif'') = Some g"
proof -
  from search_mask_SomeD [OF assms] obtain c cs where "g = c # cs" by blast
  with match_mask_at_result [OF assms] show ?thesis by simp
qed

lemma search_mask_prefix_None:
  assumes "search_mask w = Some g" and h: "prefix h g"
  shows "search_mask h = None"
proof (rule ccontr)
  assume "search_mask h \<noteq> None"
  then obtain g' where "search_mask h = Some g'" by auto
  from search_mask_SomeD [OF this] obtain pre' c' X' Y' where
    h': "h = pre' @ c' # X' @ Y'" and Y': "mask_tif Y'" by blast
  from search_mask_SomeD [OF assms(1)] obtain pre c X Y where
    g: "g = c # X @ take 5 Y" and Y: "mask_tif Y"
    and early: "\<forall>X1 X2. X = X1 @ X2 \<and> X2 \<noteq> [] \<longrightarrow> \<not> mask_tif (X2 @ Y)" by blast
  let ?M = "take 5 Y"
  have M: "length ?M = 5" using mask_tif_length [OF Y] by simp
  from h obtain Z where "g = h @ Z" by (auto simp: prefix_def)
  with h' g have e: "c # X @ ?M = (pre' @ c' # X') @ (Y' @ Z)" by simp
  have long: "8 \<le> length (Y' @ Z)" using mask_tif_length [OF Y'] by simp
  obtain P where P: "pre' @ c' # X' = c # P" using e by (cases pre') auto
  with e have "X @ ?M = P @ (Y' @ Z)" by simp
  then obtain us where "(X = P @ us \<and> us @ ?M = Y' @ Z) \<or> (X @ us = P \<and> ?M = us @ (Y' @ Z))"
    unfolding append_eq_append_conv2 by blast
  then have us: "X = P @ us" "us @ ?M = Y' @ Z"
    using long M by (auto dest: arg_cong [where f = length])
  with long M have "us \<noteq> []" by (auto dest: arg_cong [where f = length])
  with early us(1) have n: "\<not> mask_tif (us @ Y)" by blast
  from Y' have "mask_tif (Y' @ Z)" by (rule mask_tif_append)
  with us(2) have "mask_tif (us @ ?M)" by simp
  then have "mask_tif ((us @ ?M) @ drop 5 Y)" by (rule mask_tif_append)
  with n show False by simp
qed

lemma greedy_tif_SomeD:
  "greedy_tif acc rest = Some r \<Longrightarrow>
   \<exists>X T post. rest = X @ T @ post \<and> r = acc @ X @ T \<and> acc @ X \<noteq> [] \<and>
     (\<forall>c \<in> set X. not_slash c) \<and> lower T = ''.tif''"
proof (induction rest arbitrary: acc)
  case Nil
  then show ?case by simp
next
  case (Cons c cs)
  from Cons.prems have ns: "not_slash c" by (auto split: if_splits)
  show ?case
  proof (cases "greedy_tif (acc @ [c]) cs")
    case (Some r')
    with Cons.prems ns have "r' = r" by simp
    with Some Cons.IH [of "acc @ [c]"] obtain X T post where
      "cs = X @ T @ post \<and> r = (acc @ [c]) @ X @ T \<and> (\<forall>c \<in> set X. not_slash c) \<and>
       lower T = ''.tif''" by blast
    with ns have "c # cs = (c # X) @ T @ post \<and> r = acc @ (c # X) @ T \<and> acc @ (c # X) \<noteq> [] \<and>
       (\<forall>c \<in> set (c # X). not_slash c) \<and> lower T = ''.tif''" by simp
    then show ?thesis by blast
  next
    case None
    with Cons.prems ns have a: "acc \<noteq> []" and i: "istartswith (c # cs) ''.tif''"
      and r: "r = acc @ take 4 (c # cs)" by (auto split: if_splits)
    from i have "lower (take 4 (c # cs)) = ''.tif''"
      by (simp add: istartswith_def eval_nat_numeral)
    with a r have "c # cs = [] @ take 4 (c # cs) @ drop 4 (c # cs) \<and>
       r = acc @ [] @ take 4 (c # cs) \<and> acc @ [] \<noteq> [] \<and>
       (\<forall>c \<in> set []. not_slash c) \<and> lower (take 4 (c # cs)) = ''.tif''" by simp
    then show ?thesis by blast
  qed
qed

lemma search_tif_SomeD:
  "search_tif w = Some r \<Longrightarrow>
   \<exists>pre X T post. w = pre @ r @ post \<and> r = X @ T \<and> X \<noteq> [] \<and>
     (\<forall>c \<in> set X. not_slash c) \<and> lower T = ''.tif''"
proof (induction w)
  case Nil
  then show ?case by simp
next
  case (Cons a w)
  show ?case
  proof (cases "greedy_tif [] (a # w)")
    case None
    with Cons.prems have "search_tif w = Some r" by simp
    from Cons.IH [OF this] obtain pre X T post where
      "w = pre @ r @ post \<and> r = X @ T \<and> X \<noteq> [] \<and> (\<forall>c \<in> set X. not_slash c) \<and>
       lower T = ''.tif''" by blast
    then have "a # w = (a # pre) @ r @ post \<and> r = X @ T \<and> X \<noteq> [] \<and>
       (\<forall>c \<in> set X. not_slash c) \<and> lower T = ''.tif''" by simp
    then show ?thesis by blast
  next
    case (Some r')
    with Cons.prems have "r' = r" by simp
    with Some greedy_tif_SomeD [of "[]" "a # w" r] obtain X T post where
      "a # w = X @ T @ post \<and> r = [] @ X @ T \<and> [] @ X \<noteq> [] \<and>
       (\<forall>c \<in> set X. not_slash c) \<and> lower T = ''.tif''" by blast
    then have "a # w = [] @ r @ post \<and> r = X @ T \<and> X \<noteq> [] \<and>
       (\<forall>c \<in> set X. not_slash c) \<and> lower T = ''.tif''" by simp
    then show ?thesis by blast
  qed
qed

lemma lower_char_not_slash:
  "lower_char c = CHR ''.'' \<or> lower_char c = CHR ''t'' \<or> lower_char c = CHR ''i'' \<or>
   lower_char c = CHR ''f'' \<Longrightarrow> not_slash c"
  by (auto simp: not_slash_def lower_char_def)

lemma greedy_tif_tail:
  assumes "lower T = ''.tif''" "acc \<noteq> []"
  shows "greedy_tif acc T = Some (acc @ T)"
proof -
  from assms(1) obtain t0 t1 t2 t3 where T: "T = [t0, t1, t2, t3]"
    and l: "lower_char t0 = CHR ''.''" "lower_char t1 = CHR ''t''"
      "lower_char t2 = CHR ''i''" "lower_char t3 = CHR ''f''"
    by (auto simp: lower_def)
  from l have "not_slash t0" "not_slash t1" "not_slash t2" "not_slash t3"
    by (simp_all add: lower_char_not_slash)
  with l assms(2) show ?thesis
    unfolding T by (simp add: istartswith_def lower_def)
qed

lemma greedy_tif_full:
  "\<forall>c \<in> set X. not_slash c \<Longrightarrow> lower T = ''.tif'' \<Longrightarrow> acc @ X \<noteq> [] \<Longrightarrow>
   greedy_tif acc (X @ T) = Some (acc @ X @ T)"
proof (induction X arbitrary: acc)
  case Nil
  then show ?case by (simp add: greedy_tif_tail)
next
  case (Cons x X)
  from Cons.prems have "greedy_tif (acc @ [x]) (X @ T) = Some ((acc @ [x]) @ X @ T)"
    by (intro Cons.IH) simp_all
  with Cons.prems(1) show ?case by simp
qed

lemma before_first_prefix: "prefix (before_first s sub) s"
  by (induction s) auto

lemma marker_loop_None:
  assumes "\<And>h. prefix h r \<Longrightarrow> length h \<le> length r div 2 \<Longrightarrow> search_mask h = None"
  shows "marker_loop ms r = None"
proof (induction ms)
  case Nil
  then show ?case by simp
next
  case (Cons m ms)
  let ?b = "before_first r m"
  let ?h = "take (length ?b div 2) ?b"
  have "prefix ?h ?b" by (rule take_is_prefix)
  then have p: "prefix ?h r" using before_first_prefix by (rule prefix_order.trans)
  have "length ?b \<le> length r" using before_first_prefix by (rule prefix_length_le)
  then have "length ?h \<le> length r div 2" by simp
  with p have "search_mask ?h = None" by (rule assms)
  with Cons show ?case by (simp add: Let_def)
qed

lemma marker_loop_SomeD:
  "marker_loop ms val = Some r \<Longrightarrow> \<exists>w g. search_mask w = Some g \<and> r = g @ ''.tif''"
proof (induction ms)
  case Nil
  then show ?case by simp
next
  case (Cons m ms)
  then show ?case
    by (auto simp: Let_def split: if_splits option.splits)
qed

lemma clean_mask_result:
  assumes w: "search_mask w = Some g" and s: "strip (g @ ''.tif'') = g @ ''.tif''"
  shows "cleanFilename (g @ ''.tif'') = g @ ''.tif''"
proof -
  let ?r = "g @ ''.tif''"
  from search_mask_SomeD [OF w] obtain c X Y where g: "g = c # X @ take 5 Y" and "mask_tif Y"
    by blast
  then have len: "6 \<le> length g" using mask_tif_length [of Y] by simp
  have "marker_loop markers ?r = None"
  proof (rule marker_loop_None)
    fix h assume h: "prefix h ?r" "length h \<le> length ?r div 2"
    from h(2) len have "length h \<le> length g" by simp
    with h(1) have "prefix h g" by (simp add: prefix_append) (auto simp: prefix_def)
    with w show "search_mask h = None" by (rule search_mask_prefix_None)
  qed
  moreover have "search_mask ?r = Some g" using w by (rule search_mask_result)
  ultimately show ?thesis using s by (simp add: cleanFilename_def)
qed

lemma clean_tif_result:
  assumes m: "search_mask val = None" and t: "search_tif val = Some r" and s: "strip r = r"
  shows "cleanFilename r = r"
proof -
  from search_tif_SomeD [OF t] obtain pre X T post where
    val: "val = pre @ r @ post" and r: "r = X @ T" and X: "X \<noteq> []"
    and ns: "\<forall>c \<in> set X. not_slash c" and T: "lower T = ''.tif''" by blast
  have sub: "search_mask h = None" if "prefix h r" for h
  proof -
    from that obtain z where "r = h @ z" by (auto simp: prefix_def)
    with val m have "search_mask (pre @ h @ (z @ post)) = None" by simp
    then show ?thesis by (rule search_mask_None_sub)
  qed
  have "marker_loop markers r = None"
    by (rule marker_loop_None) (rule sub)
  moreover have "search_mask r = None" by (rule sub) simp
  moreover have "search_tif r = Some r"
  proof -
    from X obtain x xs where "X = x # xs" by (cases X) auto
    moreover have "greedy_tif [] (X @ T) = Some ([] @ X @ T)"
      using ns T X by (intro greedy_tif_full) simp_all
    ultimately show ?thesis using r by simp
  qed
  moreover have "r \<noteq> []" using r X by simp
  ultimately show ?thesis using s by (simp add: cleanFilename_def)
qed

text \<open>
  C3, as the code has it. Recovery is idempotent on every resolved key without
  surrounding whitespace: when \<^verbatim>\<open>cleanFilename(v)\<close> is not a placeholder (neither
  \<^verbatim>\<open>unknown\<close> nor \<^verbatim>\<open>unknown_\<close> followed by the first 30 characters of the stripped
  value) and is unchanged by \<^verbatim>\<open>strip\<close>, cleaning it again returns it unchanged.
\<close>

theorem cleanFilename_idempotent_resolved:
  "cleanFilename v \<noteq> ''unknown'' \<and> cleanFilename v \<noteq> ''unknown_'' @ take 30 (strip v) \<and>
   strip (cleanFilename v) = cleanFilename v \<longrightarrow>
   cleanFilename (cleanFilename v) = cleanFilename v"
proof (intro impI, elim conjE)
  let ?val = "strip v"
  assume u: "cleanFilename v \<noteq> ''unknown''"
    and p: "cleanFilename v \<noteq> ''unknown_'' @ take 30 ?val"
    and s: "strip (cleanFilename v) = cleanFilename v"
  from u have v: "v \<noteq> []" by (auto simp: cleanFilename_def)
  show "cleanFilename (cleanFilename v) = cleanFilename v"
  proof (cases "marker_loop markers ?val")
    case (Some r)
    with v have r: "cleanFilename v = r" by (simp add: cleanFilename_def)
    from marker_loop_SomeD [OF Some] obtain w g where
      "search_mask w = Some g" "r = g @ ''.tif''" by blast
    with s r show ?thesis using clean_mask_result by simp
  next
    case None
    note ml = this
    show ?thesis
    proof (cases "search_mask ?val")
      case (Some g)
      with v ml have "cleanFilename v = g @ ''.tif''" by (simp add: cleanFilename_def)
      with s Some show ?thesis using clean_mask_result by simp
    next
      case None
      note sm = this
      show ?thesis
      proof (cases "search_tif ?val")
        case None
        with v ml sm p show ?thesis by (simp add: cleanFilename_def)
      next
        case (Some r)
        with v ml sm have "cleanFilename v = r" by (simp add: cleanFilename_def)
        with s sm Some show ?thesis using clean_tif_result by simp
      qed
    qed
  qed
qed

theorem cleanFilename_idempotent_resolved_witness:
  "cleanFilename ''  dir/a_MASKTIF junk'' \<noteq> ''unknown'' \<and>
   cleanFilename ''  dir/a_MASKTIF junk'' \<noteq>
     ''unknown_'' @ take 30 (strip ''  dir/a_MASKTIF junk'') \<and>
   strip (cleanFilename ''  dir/a_MASKTIF junk'') = cleanFilename ''  dir/a_MASKTIF junk'' \<and>
   cleanFilename ''  dir/a_MASKTIF junk'' = ''dir/a_MASK.tif'' \<and>
   cleanFilename (cleanFilename ''  dir/a_MASKTIF junk'') = cleanFilename ''  dir/a_MASKTIF junk''"
proof -
  have e: "cleanFilename ''  dir/a_MASKTIF junk'' = ''dir/a_MASK.tif''"
    by code_simp
  have h: "''dir/a_MASK.tif'' \<noteq> ''unknown'' \<and>
      ''dir/a_MASK.tif'' \<noteq> ''unknown_'' @ take 30 (strip ''  dir/a_MASKTIF junk'') \<and>
      strip ''dir/a_MASK.tif'' = ''dir/a_MASK.tif''"
    by code_simp
  from cleanFilename_idempotent_resolved [of "''  dir/a_MASKTIF junk''"] h
  show ?thesis unfolding e by blast
qed

text \<open>
  C3 as the specification words it fails on a value without a filename: its placeholder
  is cleaned to a longer placeholder.
\<close>

theorem cleanFilename_placeholder_grows:
  "cleanFilename ''abc'' = ''unknown_abc'' \<and>
   cleanFilename (cleanFilename ''abc'') = ''unknown_unknown_abc'' \<and>
   cleanFilename (cleanFilename ''abc'') \<noteq> cleanFilename ''abc''"
  by code_simp

text \<open>A resolved key that begins with a blank is not a fixed point either: the pattern
  for any \<^verbatim>\<open>.tif\<close> name keeps the blank after the slash, and \<^verbatim>\<open>strip\<close> removes it
  the second time.\<close>

lemma cleanFilename_leading_blank:
  "cleanFilename ''a/ b.tif'' = '' b.tif'' \<and> cleanFilename '' b.tif'' = ''b.tif''"
  by code_simp


section \<open>Properties of the merge and of the written table\<close>

lemma map_of_dict_update:
  "distinct (map fst e) \<Longrightarrow> map_of (dict_update d e) = map_of d ++ map_of e"
proof (induction e arbitrary: d)
  case Nil
  then show ?case by simp
next
  case (Cons kv e)
  obtain k v where kv: "kv = (k, v)" by (cases kv)
  from Cons.prems kv have fresh: "k \<notin> dom (map_of e)" and dist: "distinct (map fst e)"
    by (auto simp: dom_map_of_conv_image_fst)
  have "map_of (dict_update d (kv # e)) = map_of (AList.update k v d) ++ map_of e"
    using Cons.IH [OF dist] kv by simp
  also have "\<dots> = (map_of d)(k \<mapsto> v) ++ map_of e"
    by (simp only: update_conv')
  also have "\<dots> = (map_of d ++ map_of e)(k \<mapsto> v)"
    using fresh by (rule map_add_upd_left)
  finally have l: "map_of (dict_update d (kv # e)) = (map_of d ++ map_of e)(k \<mapsto> v)" .
  have r: "map_of d ++ map_of (kv # e) = (map_of d ++ map_of e)(k \<mapsto> v)"
    unfolding kv by (simp only: map_of.simps fst_conv snd_conv map_add_upd)
  show ?case by (simp only: l r)
qed

lemma keys_dict_update: "fst ` set (dict_update d e) = fst ` set d \<union> fst ` set e"
proof (induction e arbitrary: d)
  case Nil
  then show ?case by simp
next
  case (Cons kv e)
  obtain k v where kv: "kv = (k, v)" by (cases kv)
  have "fst ` set (dict_update d (kv # e)) = fst ` set (AList.update k v d) \<union> fst ` set e"
    using Cons.IH kv by simp
  also have "\<dots> = ({k} \<union> fst ` set d) \<union> fst ` set e"
    by (simp only: dom_update)
  finally show ?case using kv by auto
qed

lemma distinct_dict_update:
  "distinct (map fst d) \<Longrightarrow> distinct (map fst (dict_update d e))"
  by (induction e arbitrary: d) (auto simp: distinct_update)

lemma keys_merge_record:
  "fst ` set (merge_record allData item) = insert (fst item) (fst ` set allData)"
  by (cases item) (auto simp: merge_record_def dom_update split: option.splits)

lemma distinct_merge_record:
  "distinct (map fst allData) \<Longrightarrow> distinct (map fst (merge_record allData item))"
  by (cases item) (auto simp: merge_record_def distinct_update split: option.splits)

lemma keys_merge_folder:
  "fst ` set (merge_folder allData folderData) = fst ` set allData \<union> fst ` set folderData"
  by (induction folderData arbitrary: allData) (auto simp: keys_merge_record)

lemma distinct_merge_folder:
  "distinct (map fst allData) \<Longrightarrow> distinct (map fst (merge_folder allData folderData))"
  by (induction folderData arbitrary: allData) (auto simp: distinct_merge_record)

lemma keys_process_folders:
  "fst ` set (fst (process_folders fs (allData, out))) =
     fst ` set allData \<union> (\<Union>f \<in> set fs. folder_keys f)"
proof (induction fs "(allData, out)" arbitrary: allData out rule: process_folders.induct)
  case 1
  then show ?case by simp
next
  case (2 fs)
  then show ?case by (simp add: folder_keys_def)
next
  case (3 sf fs allData out)
  obtain folderData errs where p: "processFracLacFile sf column_map = (folderData, errs)"
    by (cases "processFracLacFile sf column_map")
  from 3 [OF p [symmetric]] p show ?case
    by (auto simp: keys_merge_folder folder_keys_def)
qed

lemma distinct_process_folders:
  "distinct (map fst allData) \<Longrightarrow>
   distinct (map fst (fst (process_folders fs (allData, out))))"
proof (induction fs "(allData, out)" arbitrary: allData out rule: process_folders.induct)
  case 1
  then show ?case by simp
next
  case (2 fs)
  then show ?case by simp
next
  case (3 sf fs allData out)
  obtain folderData errs where p: "processFracLacFile sf column_map = (folderData, errs)"
    by (cases "processFracLacFile sf column_map")
  from 3(1) [OF p [symmetric]] 3(2) p show ?case
    by (simp add: distinct_merge_folder)
qed

lemma sorted_keys_unique:
  assumes "distinct (map fst t)" "distinct (map fst t')" "set (map fst t) = set (map fst t')"
  shows "sorted_keys t = sorted_keys t'"
  unfolding sorted_keys_def
  by (rule sorted_distinct_set_unique) (use assms in simp_all)

lemma map_filter_Some:
  "\<forall>k \<in> set ks. f k \<noteq> None \<Longrightarrow> map Some (List.map_filter f ks) = map f ks"
  by (induction ks) (auto simp: List.map_filter_simps)

lemma written_rows_lookup:
  "map Some (written_rows t) = map (map_of t) (sorted_keys t)"
  unfolding written_rows_def
  by (rule map_filter_Some) (auto simp: sorted_keys_def map_of_eq_None_iff)

lemma read_rows_fail:
  "read_rows actual (map Row rows @ ReadFails e # rest) data =
     (fst (read_rows actual (map Row rows) data), [error_line e])"
  by (induction rows arbitrary: data) auto


text \<open>
  C1. Folding the partial record of specimen \<open>k\<close> into the global table: when \<open>k\<close> is
  absent the record is inserted as it is; when \<open>k\<close> is present its record is updated field
  by field (a field of the incoming record overwrites or extends, every other field
  stays). Merging \<^verbatim>\<open>{a:1}\<close> then \<^verbatim>\<open>{b:2}\<close> under \<open>k\<close> gives
  \<^verbatim>\<open>{filename:k, a:1, b:2}\<close>, and \<^verbatim>\<open>{a:1}\<close> then \<^verbatim>\<open>{a:2}\<close> gives field \<open>a\<close> = 2; the
  partial records carry \<^verbatim>\<open>filename\<close>, as the row loop creates them.
\<close>

theorem record_merger:
  "(map_of allData k = None \<longrightarrow>
      map_of (merge_record allData (k, measurements)) = (map_of allData)(k \<mapsto> measurements)) \<and>
   (map_of allData k = Some existing \<and> distinct (map fst measurements) \<longrightarrow>
      map_of (merge_record allData (k, measurements)) =
        (map_of allData)(k \<mapsto> dict_update existing measurements) \<and>
      map_of (dict_update existing measurements) = map_of existing ++ map_of measurements) \<and>
   merge_folder (merge_folder [] [(k, [(''filename'', k), (''a'', ''1'')])])
       [(k, [(''filename'', k), (''b'', ''2'')])] =
     [(k, [(''filename'', k), (''a'', ''1''), (''b'', ''2'')])] \<and>
   merge_folder (merge_folder [] [(k, [(''filename'', k), (''a'', ''1'')])])
       [(k, [(''filename'', k), (''a'', ''2'')])] =
     [(k, [(''filename'', k), (''a'', ''2'')])]"
  by (simp add: merge_record_def update_conv' map_of_dict_update)

theorem record_merger_witness:
  "map_of ([] :: table) ''c_mask.tif'' = None \<and>
   map_of (merge_record [] (''c_mask.tif'', [(''filename'', ''c_mask.tif''), (''a'', ''1'')])) =
     [''c_mask.tif'' \<mapsto> [(''filename'', ''c_mask.tif''), (''a'', ''1'')]] \<and>
   map_of [(''c_mask.tif'', [(''filename'', ''c_mask.tif''), (''a'', ''1'')])] ''c_mask.tif'' =
     Some [(''filename'', ''c_mask.tif''), (''a'', ''1'')] \<and>
   distinct (map fst [(''filename'', ''c_mask.tif''), (''b'', ''2'')]) \<and>
   map_of (merge_record [(''c_mask.tif'', [(''filename'', ''c_mask.tif''), (''a'', ''1'')])]
             (''c_mask.tif'', [(''filename'', ''c_mask.tif''), (''b'', ''2'')])) =
     [''c_mask.tif'' \<mapsto> [(''filename'', ''c_mask.tif''), (''a'', ''1''), (''b'', ''2'')]]"
  using
    record_merger [of "[]" "''c_mask.tif''" "[(''filename'', ''c_mask.tif''), (''a'', ''1'')]"]
    record_merger [of "[(''c_mask.tif'', [(''filename'', ''c_mask.tif''), (''a'', ''1'')])]"
      "''c_mask.tif''" "[(''filename'', ''c_mask.tif''), (''b'', ''2'')]"
      "[(''filename'', ''c_mask.tif''), (''a'', ''1'')]"]
  by simp

text \<open>Two folders that report the same specimen, end to end.\<close>

lemma merge_two_files_example:
  "fst (process_folders
     [Some (Opened (Some [''1. name'', ''6. D''])
        [Row [(''1. name'', Some ''c_mask.tif''), (''6. D'', Some ''1'')]]),
      None,
      Some (Opened (Some [''1. name'', ''87. L''])
        [Row [(''1. name'', Some ''c_mask.tif''), (''87. L'', Some ''2'')]])]
     ([], [])) =
   [(''c_mask.tif'',
     [(''filename'', ''c_mask.tif''), (''fractal_dimension'', ''1''), (''lacunarity'', ''2'')])]"
  by (simp add: processFracLacFile_def actualColumns_def column_map_def add_row_def
      extractFilenameFromRow_def cleanFilename_field_def merge_record_def clean_defs Let_def)

text \<open>
  C10. The rows of the combined CSV are written in ascending order of specimen key: the
  written rows are the records of the sorted keys. Two tables with the same keys are
  written in the same key order, and so the key order of a run does not depend on the
  order in which the folders were enumerated.
\<close>

theorem combined_rows_sorted:
  "sorted (sorted_keys allData) \<and>
   set (sorted_keys allData) = fst ` set allData \<and>
   map Some (written_rows allData) = map (map_of allData) (sorted_keys allData) \<and>
   (distinct (map fst t) \<and> distinct (map fst t') \<and> fst ` set t = fst ` set t' \<longrightarrow>
      sorted_keys t = sorted_keys t') \<and>
   (set fs = set fs' \<longrightarrow>
      sorted_keys (fst (process_folders fs ([], []))) =
      sorted_keys (fst (process_folders fs' ([], []))))"
proof -
  have a: "sorted (sorted_keys allData)" "set (sorted_keys allData) = fst ` set allData"
    by (simp_all add: sorted_keys_def)
  have b: "sorted_keys t = sorted_keys t'"
    if "distinct (map fst t)" "distinct (map fst t')" "fst ` set t = fst ` set t'"
    using that by (intro sorted_keys_unique) simp_all
  have c: "sorted_keys (fst (process_folders fs ([], []))) =
      sorted_keys (fst (process_folders fs' ([], [])))" if "set fs = set fs'"
  proof (rule sorted_keys_unique)
    show "distinct (map fst (fst (process_folders fs ([], []))))"
      by (rule distinct_process_folders) simp
    show "distinct (map fst (fst (process_folders fs' ([], []))))"
      by (rule distinct_process_folders) simp
    show "set (map fst (fst (process_folders fs ([], [])))) =
        set (map fst (fst (process_folders fs' ([], []))))"
      using that by (simp add: keys_process_folders)
  qed
  from a b c written_rows_lookup show ?thesis by blast
qed

theorem combined_rows_sorted_witness:
  "distinct (map fst [(''b'', [(''filename'', ''b'')]), (''a'', [(''filename'', ''a'')])]) \<and>
   distinct (map fst [(''a'', [(''filename'', ''a'')]), (''b'', [(''filename'', ''b'')])]) \<and>
   sorted_keys [(''b'', [(''filename'', ''b'')]), (''a'', [(''filename'', ''a'')])] =
     sorted_keys [(''a'', [(''filename'', ''a'')]), (''b'', [(''filename'', ''b'')])] \<and>
   set [None, Some (OpenFails ''e'')] = set [Some (OpenFails ''e''), None] \<and>
   sorted_keys (fst (process_folders [None, Some (OpenFails ''e'')] ([], []))) =
     sorted_keys (fst (process_folders [Some (OpenFails ''e''), None] ([], [])))"
  using
    combined_rows_sorted [of "[]" "[(''b'', [(''filename'', ''b'')]), (''a'', [(''filename'', ''a'')])]"
      "[(''a'', [(''filename'', ''a'')]), (''b'', [(''filename'', ''b'')])]"
      "[None, Some (OpenFails ''e'')]" "[Some (OpenFails ''e''), None]"]
  by auto

text \<open>
  C6, as the code has it. When reading a file raises, the handler prints the cause and
  \<^verbatim>\<open>processFracLacFile\<close> returns the rows processed before the failure: none when
  opening fails or the first read fails (the table is then unchanged), otherwise exactly
  what the rows before the failure give. In each case the loop goes on with the
  remaining folders.
\<close>

theorem read_failure_keeps_earlier_rows:
  "processFracLacFile (OpenFails e) cm = ([], [error_line e]) \<and>
   processFracLacFile (Opened (Some fieldnames) (map Row rows @ ReadFails e # rest)) cm =
     (fst (processFracLacFile (Opened (Some fieldnames) (map Row rows)) cm), [error_line e]) \<and>
   process_folders (Some (OpenFails e) # fs) (allData, out) =
     process_folders fs (allData, out @ [error_line e]) \<and>
   process_folders (Some (Opened (Some fieldnames) (ReadFails e # rest)) # fs) (allData, out) =
     process_folders fs (allData, out @ [error_line e]) \<and>
   process_folders (Some (Opened (Some fieldnames) (map Row rows @ ReadFails e # rest)) # fs)
       (allData, out) =
     process_folders fs
       (merge_folder allData
          (fst (processFracLacFile (Opened (Some fieldnames) (map Row rows)) column_map)),
        out @ [error_line e])"
  by (simp add: processFracLacFile_def read_rows_fail)

text \<open>
  C6 as the specification words it fails for a file that yields one row and then raises:
  the row read before the failure is merged into the global table.
\<close>

theorem read_failure_after_a_row:
  "process_folders
     [Some (Opened (Some [''1. name'', ''6. D''])
        [Row [(''1. name'', Some ''c_mask.tif''), (''6. D'', Some ''1'')],
         ReadFails ''line contains NULL byte''])]
     ([], []) =
   ([(''c_mask.tif'', [(''filename'', ''c_mask.tif''), (''fractal_dimension'', ''1'')])],
    [''  ERROR: line contains NULL byte'']) \<and>
   fst (process_folders
     [Some (Opened (Some [''1. name'', ''6. D''])
        [Row [(''1. name'', Some ''c_mask.tif''), (''6. D'', Some ''1'')],
         ReadFails ''line contains NULL byte''])]
     ([], [])) \<noteq> []"
  by (simp add: processFracLacFile_def actualColumns_def column_map_def add_row_def
      extractFilenameFromRow_def cleanFilename_field_def merge_record_def clean_defs Let_def
      error_line_def)

section \<open>Properties of the column mapping\<close>

lemma startswith_prefix: "startswith s p \<longleftrightarrow> prefix p s"
  by (induction s p rule: startswith.induct) auto

lemma startswith_comparable:
  "startswith h p \<Longrightarrow> startswith h p' \<Longrightarrow> startswith p p' \<or> startswith p' p"
  unfolding startswith_prefix using prefix_same_cases by blast

lemma first_match_iff:
  "first_match p f = Some h \<longleftrightarrow>
     (\<exists>pre post. f = pre @ h # post \<and> startswith h p \<and> (\<forall>x \<in> set pre. \<not> startswith x p))"
proof (induction f)
  case Nil
  then show ?case by simp
next
  case (Cons x f)
  show ?case
  proof (cases "startswith x p")
    case True
    have "(\<exists>pre post. x # f = pre @ h # post \<and> startswith h p \<and>
             (\<forall>y \<in> set pre. \<not> startswith y p)) \<longleftrightarrow> x = h"
    proof
      assume "\<exists>pre post. x # f = pre @ h # post \<and> startswith h p \<and>
             (\<forall>y \<in> set pre. \<not> startswith y p)"
      then obtain pre post where e: "x # f = pre @ h # post"
        and n: "\<forall>y \<in> set pre. \<not> startswith y p" by blast
      show "x = h"
      proof (cases pre)
        case Nil
        with e show ?thesis by simp
      next
        case (Cons a list)
        with e n True show ?thesis by auto
      qed
    next
      assume "x = h"
      with True have "x # f = [] @ h # f \<and> startswith h p \<and>
          (\<forall>y \<in> set []. \<not> startswith y p)" by simp
      then show "\<exists>pre post. x # f = pre @ h # post \<and> startswith h p \<and>
             (\<forall>y \<in> set pre. \<not> startswith y p)" by blast
    qed
    with True show ?thesis by auto
  next
    case False
    have "(\<exists>pre post. x # f = pre @ h # post \<and> startswith h p \<and>
             (\<forall>y \<in> set pre. \<not> startswith y p)) \<longleftrightarrow>
          (\<exists>pre post. f = pre @ h # post \<and> startswith h p \<and>
             (\<forall>y \<in> set pre. \<not> startswith y p))" (is "?L \<longleftrightarrow> ?R")
    proof
      assume ?L
      then obtain pre post where e: "x # f = pre @ h # post" and s: "startswith h p"
        and n: "\<forall>y \<in> set pre. \<not> startswith y p" by blast
      show ?R
      proof (cases pre)
        case Nil
        with e s False show ?thesis by simp
      next
        case (Cons a list)
        with e n have "f = list @ h # post" "\<forall>y \<in> set list. \<not> startswith y p" by auto
        with s show ?thesis by blast
      qed
    next
      assume ?R
      then obtain pre post where e: "f = pre @ h # post" and s: "startswith h p"
        and n: "\<forall>y \<in> set pre. \<not> startswith y p" by blast
      from e n False have "x # f = (x # pre) @ h # post"
        "\<forall>y \<in> set (x # pre). \<not> startswith y p" by auto
      with s show ?L by blast
    qed
    with False Cons.IH show ?thesis by simp
  qed
qed

lemma first_match_startswith: "first_match p f = Some h \<Longrightarrow> startswith h p"
  by (simp add: first_match_iff) blast

lemma build_columns_keeps:
  "map_of actual h = Some n \<Longrightarrow>
   (\<And>p' n'. (p', n') \<in> set cm \<Longrightarrow> first_match p' f = Some h \<Longrightarrow> n' = n) \<Longrightarrow>
   map_of (build_columns cm f actual) h = Some n"
proof (induction cm arbitrary: actual)
  case Nil
  then show ?case by simp
next
  case (Cons pn cm)
  obtain p0 n0 where pn: "pn = (p0, n0)" by (cases pn)
  let ?a = "case first_match p0 f of Some col \<Rightarrow> AList.update col n0 actual | None \<Rightarrow> actual"
  have "map_of ?a h = Some n"
    using Cons.prems pn by (auto simp: update_conv' split: option.splits)
  then have "map_of (build_columns cm f ?a) h = Some n"
    by (rule Cons.IH) (use Cons.prems(2) in auto)
  then show ?case using pn by simp
qed

lemma build_columns_binds:
  "(p, n) \<in> set cm \<Longrightarrow> first_match p f = Some h \<Longrightarrow>
   (\<And>p' n'. (p', n') \<in> set cm \<Longrightarrow> first_match p' f = Some h \<Longrightarrow> n' = n) \<Longrightarrow>
   map_of (build_columns cm f actual) h = Some n"
proof (induction cm arbitrary: actual)
  case Nil
  then show ?case by simp
next
  case (Cons pn cm)
  obtain p0 n0 where pn: "pn = (p0, n0)" by (cases pn)
  let ?a = "case first_match p0 f of Some col \<Rightarrow> AList.update col n0 actual | None \<Rightarrow> actual"
  have later: "\<And>p' n'. (p', n') \<in> set cm \<Longrightarrow> first_match p' f = Some h \<Longrightarrow> n' = n"
    using Cons.prems(3) by auto
  show ?case
  proof (cases "(p, n) \<in> set cm")
    case True
    then have "map_of (build_columns cm f ?a) h = Some n"
      using Cons.prems(2) later by (rule Cons.IH)
    then show ?thesis using pn by simp
  next
    case False
    with Cons.prems(1) pn have "p0 = p" "n0 = n" by auto
    with Cons.prems(2) have "map_of ?a h = Some n" by (simp add: update_conv')
    then have "map_of (build_columns cm f ?a) h = Some n"
      using later by (rule build_columns_keeps)
    then show ?thesis using pn by simp
  qed
qed

lemma build_columns_source:
  "map_of (build_columns cm f actual) h = Some n \<Longrightarrow>
   (\<exists>p. (p, n) \<in> set cm \<and> first_match p f = Some h) \<or> map_of actual h = Some n"
proof (induction cm arbitrary: actual)
  case Nil
  then show ?case by simp
next
  case (Cons pn cm)
  obtain p0 n0 where pn: "pn = (p0, n0)" by (cases pn)
  let ?a = "case first_match p0 f of Some col \<Rightarrow> AList.update col n0 actual | None \<Rightarrow> actual"
  from Cons.prems pn have "map_of (build_columns cm f ?a) h = Some n" by simp
  from Cons.IH [OF this]
  consider p where "(p, n) \<in> set cm" "first_match p f = Some h" | "map_of ?a h = Some n"
    by blast
  then show ?case
  proof cases
    case 1
    then show ?thesis by auto
  next
    case 2
    then have "(first_match p0 f = Some h \<and> n0 = n) \<or> map_of actual h = Some n"
      by (auto simp: update_conv' split: option.splits if_splits)
    then show ?thesis using pn by auto
  qed
qed

lemma distinct_build_columns:
  "distinct (map fst actual) \<Longrightarrow> distinct (map fst (build_columns cm f actual))"
  by (induction cm arbitrary: actual) (auto simp: distinct_update split: option.splits)

lemma column_map_names_distinct: "distinct (map snd column_map)"
  by (simp add: column_map_def)

lemma column_map_prefix_free:
  "\<forall>(p, n) \<in> set column_map. \<forall>(p', n') \<in> set column_map.
     startswith p p' \<or> startswith p' p \<longrightarrow> p = p' \<and> n = n'"
  by (simp add: column_map_def)

lemma column_map_compat:
  assumes "(p, n) \<in> set column_map" "(p', n') \<in> set column_map"
    "startswith h p" "startswith h p'"
  shows "p = p' \<and> n = n'"
proof -
  from assms(3,4) have "startswith p p' \<or> startswith p' p" by (rule startswith_comparable)
  with column_map_prefix_free assms(1,2) show ?thesis by blast
qed


text \<open>
  C2. For every header list of a source file and the prefix table of \<^verbatim>\<open>main\<close>: each
  canonical name is bound to the first header that starts with its prefix; every
  binding of the result is of this kind; when the loop reaches a prefix, its first
  matching header has not been bound by an earlier entry of the table, so none is
  rebound; no raw header occurs twice in the mapping and no canonical name is bound to
  two raw headers. (No header can start with two prefixes of this table, which is why
  the unguarded assignment of the loop never overwrites.)
\<close>

theorem column_mapper:
  "(\<forall>(pattern, name) \<in> set column_map. \<forall>pre h post.
      fieldnames = pre @ h # post \<and> startswith h pattern \<and>
      (\<forall>x \<in> set pre. \<not> startswith x pattern) \<longrightarrow>
      map_of (actualColumns column_map fieldnames) h = Some name) \<and>
   (\<forall>h name. map_of (actualColumns column_map fieldnames) h = Some name \<longrightarrow>
      (\<exists>pattern. (pattern, name) \<in> set column_map \<and>
         first_match pattern fieldnames = Some h)) \<and>
   (\<forall>before pattern name after h.
      column_map = before @ (pattern, name) # after \<and>
      first_match pattern fieldnames = Some h \<longrightarrow>
      map_of (actualColumns before fieldnames) h = None) \<and>
   distinct (map fst (actualColumns column_map fieldnames)) \<and>
   (\<forall>h h' name.
      map_of (actualColumns column_map fieldnames) h = Some name \<and>
      map_of (actualColumns column_map fieldnames) h' = Some name \<longrightarrow> h = h')"
proof -
  let ?A = "actualColumns column_map fieldnames"
  have src: "\<exists>p. (p, n) \<in> set column_map \<and> first_match p fieldnames = Some h"
    if "map_of ?A h = Some n" for h n
    using build_columns_source [of column_map fieldnames "[]" h n] that
    by (simp add: actualColumns_def)
  have same: "n' = n"
    if "(p, n) \<in> set column_map" "first_match p fieldnames = Some h"
      "(p', n') \<in> set column_map" "first_match p' fieldnames = Some h" for p n p' n' h
  proof -
    from that(2) have "startswith h p" by (rule first_match_startswith)
    moreover from that(4) have "startswith h p'" by (rule first_match_startswith)
    ultimately have "p = p' \<and> n = n'" using that(1,3) column_map_compat by blast
    then show ?thesis by simp
  qed
  have bind: "map_of ?A h = Some n"
    if "(p, n) \<in> set column_map" "first_match p fieldnames = Some h" for p n h
    unfolding actualColumns_def using that
  proof (rule build_columns_binds)
    fix p' n'
    assume "(p', n') \<in> set column_map" "first_match p' fieldnames = Some h"
    with that show "n' = n" by (rule same)
  qed
  have c1: "\<forall>(pattern, name) \<in> set column_map. \<forall>pre h post.
      fieldnames = pre @ h # post \<and> startswith h pattern \<and>
      (\<forall>x \<in> set pre. \<not> startswith x pattern) \<longrightarrow> map_of ?A h = Some name"
  proof (intro ballI, clarify)
    fix p n pre h post
    assume m: "(p, n) \<in> set column_map" and s: "startswith h p"
      and n: "\<forall>x \<in> set pre. \<not> startswith x p"
      and f: "fieldnames = pre @ h # post"
    from s n f have "first_match p fieldnames = Some h"
      unfolding first_match_iff by blast
    with m have "map_of ?A h = Some n" by (rule bind)
    then show "map_of (actualColumns column_map (pre @ h # post)) h = Some n"
      unfolding f .
  qed
  have c2: "\<forall>h name. map_of ?A h = Some name \<longrightarrow>
      (\<exists>pattern. (pattern, name) \<in> set column_map \<and>
         first_match pattern fieldnames = Some h)"
    using src by blast
  have c3: "\<forall>before pattern name after h.
      column_map = before @ (pattern, name) # after \<and>
      first_match pattern fieldnames = Some h \<longrightarrow>
      map_of (actualColumns before fieldnames) h = None"
  proof (intro allI impI, elim conjE)
    fix before p n after h
    assume cm: "column_map = before @ (p, n) # after"
      and fm: "first_match p fieldnames = Some h"
    show "map_of (actualColumns before fieldnames) h = None"
    proof (rule ccontr)
      assume "map_of (actualColumns before fieldnames) h \<noteq> None"
      then obtain n' where "map_of (build_columns before fieldnames []) h = Some n'"
        by (auto simp: actualColumns_def)
      from build_columns_source [OF this]
      obtain p' where p': "(p', n') \<in> set before" "first_match p' fieldnames = Some h"
        by auto
      have mem: "(p, n) \<in> set column_map" "(p', n') \<in> set column_map"
        unfolding cm using p'(1) by simp_all
      from mem(1) fm mem(2) p'(2) have "n' = n" by (rule same)
      moreover have "distinct (map snd (before @ (p, n) # after))"
        using column_map_names_distinct unfolding cm .
      then have "n \<notin> snd ` set before" by simp
      moreover from p'(1) have "n' \<in> snd ` set before" by (rule image_eqI [rotated]) simp
      ultimately show False by simp
    qed
  qed
  have c4: "distinct (map fst ?A)"
    unfolding actualColumns_def by (rule distinct_build_columns) simp
  have c5: "\<forall>h h' name. map_of ?A h = Some name \<and> map_of ?A h' = Some name \<longrightarrow> h = h'"
  proof (intro allI impI, elim conjE)
    fix h h' n
    assume "map_of ?A h = Some n" "map_of ?A h' = Some n"
    with src obtain p p' where
      p: "(p, n) \<in> set column_map" "first_match p fieldnames = Some h" and
      p': "(p', n) \<in> set column_map" "first_match p' fieldnames = Some h'" by blast
    from column_map_names_distinct have "inj_on snd (set column_map)"
      by (simp add: distinct_map)
    moreover have "snd (p, n) = snd (p', n)" by simp
    ultimately have "(p, n) = (p', n)" using p(1) p'(1) by (rule inj_onD)
    with p(2) p'(2) show "h = h'" by simp
  qed
  from c1 c2 c3 c4 c5 show ?thesis by (intro conjI)
qed

theorem column_mapper_witness:
  "(''6.'', ''fractal_dimension'') \<in> set column_map \<and>
   [''1. name'', ''6. D'', ''6. E'', ''87. L''] = [''1. name''] @ ''6. D'' # [''6. E'', ''87. L''] \<and>
   startswith ''6. D'' ''6.'' \<and> \<not> startswith ''1. name'' ''6.'' \<and>
   map_of (actualColumns column_map [''1. name'', ''6. D'', ''6. E'', ''87. L'']) ''6. D'' =
     Some ''fractal_dimension''"
proof -
  let ?f = "[''1. name'', ''6. D'', ''6. E'', ''87. L'']"
  have m: "(''6.'', ''fractal_dimension'') \<in> set column_map"
    by (simp add: column_map_def)
  have h: "?f = [''1. name''] @ ''6. D'' # [''6. E'', ''87. L''] \<and> startswith ''6. D'' ''6.'' \<and>
      (\<forall>x \<in> set [''1. name'']. \<not> startswith x ''6.'')"
    by simp
  from column_mapper [of ?f] have
    "\<forall>(pattern, name) \<in> set column_map. \<forall>pre h post.
      ?f = pre @ h # post \<and> startswith h pattern \<and>
      (\<forall>x \<in> set pre. \<not> startswith x pattern) \<longrightarrow>
      map_of (actualColumns column_map ?f) h = Some name" by (rule conjunct1)
  with m have "\<forall>pre h post.
      ?f = pre @ h # post \<and> startswith h ''6.'' \<and>
      (\<forall>x \<in> set pre. \<not> startswith x ''6.'') \<longrightarrow>
      map_of (actualColumns column_map ?f) h = Some ''fractal_dimension''" by fast
  with h have "map_of (actualColumns column_map ?f) ''6. D'' = Some ''fractal_dimension''"
    by blast
  with m show ?thesis by simp
qed

section \<open>Properties of the row key\<close>

lemma primary_loop_None:
  "\<forall>(key, value) \<in> set r. \<not> startswith key ''1.'' \<Longrightarrow> primary_loop r = None"
  by (induction r rule: primary_loop.induct) auto

lemma primary_loop_first:
  "\<forall>(key, value) \<in> set pre. \<not> startswith key ''1.'' \<Longrightarrow> startswith key ''1.'' \<Longrightarrow>
   primary_loop (pre @ (key, value) # post) = Some (cleanFilename_field value)"
  by (induction pre rule: primary_loop.induct) auto

lemma scan_loop_None:
  "\<forall>(key, value) \<in> set r.
     contains (lower (str value)) ''_mask'' \<or> contains (lower (str value)) ''.tif'' \<longrightarrow>
     cleanFilename (str value) = [] \<or> startswith (cleanFilename (str value)) ''unknown'' \<Longrightarrow>
   scan_loop r = None"
  by (induction r rule: scan_loop.induct) (auto simp: Let_def)

text \<open>
  C4, as the code has it. A non-empty value on which no marker half resolves and neither
  pattern matches is cleaned to \<^verbatim>\<open>unknown_\<close> followed by the first 30 characters of
  the value stripped of surrounding whitespace, and this is the key of a row whose
  primary-identity column (the first key starting with \<^verbatim>\<open>1.\<close>) holds such a value.
  A row without a primary-identity column, in which no scanned value resolves, gets the
  bare key \<^verbatim>\<open>unknown\<close>.
\<close>

theorem unrecoverable_filename:
  "(v \<noteq> [] \<and> marker_loop markers (strip v) = None \<and> search_mask (strip v) = None \<and>
    search_tif (strip v) = None \<longrightarrow>
      cleanFilename v = ''unknown_'' @ take 30 (strip v)) \<and>
   ((\<forall>(key, value) \<in> set pre. \<not> startswith key ''1.'') \<and> startswith key1 ''1.'' \<and>
    v \<noteq> [] \<and> marker_loop markers (strip v) = None \<and> search_mask (strip v) = None \<and>
    search_tif (strip v) = None \<longrightarrow>
      extractFilenameFromRow (pre @ (key1, Some v) # post) = ''unknown_'' @ take 30 (strip v)) \<and>
   ((\<forall>(key, value) \<in> set r. \<not> startswith key ''1.'') \<and>
    (\<forall>(key, value) \<in> set r.
       contains (lower (str value)) ''_mask'' \<or> contains (lower (str value)) ''.tif'' \<longrightarrow>
       cleanFilename (str value) = [] \<or> startswith (cleanFilename (str value)) ''unknown'') \<longrightarrow>
      extractFilenameFromRow r = ''unknown'')"
proof (intro conjI impI)
  assume "v \<noteq> [] \<and> marker_loop markers (strip v) = None \<and> search_mask (strip v) = None \<and>
    search_tif (strip v) = None"
  then show "cleanFilename v = ''unknown_'' @ take 30 (strip v)"
    by (simp add: cleanFilename_def)
next
  assume h: "(\<forall>(key, value) \<in> set pre. \<not> startswith key ''1.'') \<and> startswith key1 ''1.'' \<and>
    v \<noteq> [] \<and> marker_loop markers (strip v) = None \<and> search_mask (strip v) = None \<and>
    search_tif (strip v) = None"
  then have "primary_loop (pre @ (key1, Some v) # post) = Some (cleanFilename_field (Some v))"
    by (intro primary_loop_first) simp_all
  moreover from h have "cleanFilename v = ''unknown_'' @ take 30 (strip v)"
    by (simp add: cleanFilename_def)
  ultimately show
    "extractFilenameFromRow (pre @ (key1, Some v) # post) = ''unknown_'' @ take 30 (strip v)"
    by (simp add: extractFilenameFromRow_def cleanFilename_field_def)
next
  assume h: "(\<forall>(key, value) \<in> set r. \<not> startswith key ''1.'') \<and>
    (\<forall>(key, value) \<in> set r.
       contains (lower (str value)) ''_mask'' \<or> contains (lower (str value)) ''.tif'' \<longrightarrow>
       cleanFilename (str value) = [] \<or> startswith (cleanFilename (str value)) ''unknown'')"
  then have "primary_loop r = None" by (intro primary_loop_None) simp
  moreover from h have "scan_loop r = None" by (intro scan_loop_None) simp
  ultimately show "extractFilenameFromRow r = ''unknown''"
    by (simp add: extractFilenameFromRow_def)
qed

theorem unrecoverable_filename_witness:
  "cleanFilename ''  no name here'' = ''unknown_no name here'' \<and>
   extractFilenameFromRow [(''0. id'', Some ''7''), (''1. file'', Some ''  no name here'')] =
     ''unknown_no name here'' \<and>
   extractFilenameFromRow [(''0. id'', Some ''7''), (''6. D'', Some ''my_mask data'')] =
     ''unknown''"
proof -
  have h1: "''  no name here'' \<noteq> [] \<and> marker_loop markers (strip ''  no name here'') = None \<and>
      search_mask (strip ''  no name here'') = None \<and>
      search_tif (strip ''  no name here'') = None"
    by code_simp
  have h2: "(\<forall>(key, value) \<in> set [(''0. id'', Some ''7'')]. \<not> startswith key ''1.'') \<and>
      startswith ''1. file'' ''1.''"
    by simp
  have h3: "(\<forall>(key, value) \<in> set [(''0. id'', Some ''7''), (''6. D'', Some ''my_mask data'')].
        \<not> startswith key ''1.'') \<and>
      (\<forall>(key, value) \<in> set [(''0. id'', Some ''7''), (''6. D'', Some ''my_mask data'')].
        contains (lower (str value)) ''_mask'' \<or> contains (lower (str value)) ''.tif'' \<longrightarrow>
        cleanFilename (str value) = [] \<or> startswith (cleanFilename (str value)) ''unknown'')"
    by code_simp
  have s: "strip ''  no name here'' = ''no name here''"
    by code_simp
  from unrecoverable_filename [of "''  no name here''" "[(''0. id'', Some ''7'')]" "''1. file''"
      "[]" "[(''0. id'', Some ''7''), (''6. D'', Some ''my_mask data'')]"] h1 h2 h3
  show ?thesis unfolding s by simp
qed

text \<open>
  C4 as the specification words it fails on a row without a primary-identity column whose
  only value carries no token: the key is \<^verbatim>\<open>unknown\<close>, without the first characters
  of the value.
\<close>

theorem unrecoverable_row_bare_unknown:
  "\<not> startswith ''6. D'' ''1.'' \<and>
   extractFilenameFromRow [(''6. D'', Some ''abc'')] = ''unknown'' \<and>
   extractFilenameFromRow [(''6. D'', Some ''abc'')] \<noteq> ''unknown_'' @ take 30 ''abc''"
  by (simp add: extractFilenameFromRow_def str_def lower_def lower_char_def)


section \<open>Cell names with an area suffix\<close>

lemma startswith_append_same: "startswith (p @ s) p"
  by (induction p) auto

lemma endswith_append_same: "endswith (s @ p) p"
  by (simp add: endswith_def startswith_append_same)

lemma chop_append: "n = length p \<Longrightarrow> chop n (s @ p) = s"
  by (simp add: chop_def)

lemma split_dollar_tif: "split_dollar (s @ ''_mask.tif'') = (s @ ''_mask.tif'', [])"
  by (simp add: split_dollar_def)

lemma takeWhile_digits_rev:
  assumes "\<forall>d \<in> set ds. is_digit d"
  shows "takeWhile is_digit (rev (stem @ ''_area'' @ ds)) = rev ds"
proof -
  have r: "rev (stem @ ''_area'' @ ds) = rev ds @ CHR ''a'' # rev (stem @ ''_are'')" by simp
  have a: "\<not> is_digit CHR ''a''" by (simp add: is_digit_def)
  have "takeWhile is_digit (rev ds @ CHR ''a'' # rev (stem @ ''_are'')) =
      takeWhile is_digit (rev ds)" using a by (rule takeWhile_tail)
  also have "\<dots> = rev ds" using assms by (simp add: takeWhile_eq_all_conv)
  finally show ?thesis unfolding r .
qed

lemma sub_area_digits_strips:
  assumes "ds \<noteq> []" "\<forall>d \<in> set ds. is_digit d"
  shows "sub_area_digits (stem @ ''_area'' @ ds @ ''_mask.tif'') = stem"
proof -
  let ?pre = "stem @ ''_area'' @ ds"
  have b: "stem @ ''_area'' @ ds @ ''_mask.tif'' = ?pre @ ''_mask.tif''" by simp
  have c: "chop 9 (?pre @ ''_mask.tif'') = ?pre" by (rule chop_append) simp
  have t: "takeWhile is_digit (rev ?pre) = rev ds" using assms(2) by (rule takeWhile_digits_rev)
  have f: "chop (length (rev ds)) ?pre = stem @ ''_area''"
  proof -
    have "chop (length (rev ds)) ((stem @ ''_area'') @ ds) = stem @ ''_area''"
      by (rule chop_append) simp
    then show ?thesis by simp
  qed
  have g: "chop 5 (stem @ ''_area'') = stem" by (rule chop_append) simp
  have e1: "endswith (?pre @ ''_mask.tif'') ''_mask.tif''" by (rule endswith_append_same)
  have e2: "endswith (stem @ ''_area'') ''_area''" by (rule endswith_append_same)
  have d: "rev ds \<noteq> []" using assms(1) by simp
  show ?thesis
    unfolding b sub_area_digits_def split_dollar_tif
    by (simp only: prod.case e1 if_True Let_def c t f g e2 d not_False_eq_True simp_thms
        append_Nil2)
qed

lemma endswith_suffix: "endswith s p \<longleftrightarrow> suffix p s"
  by (simp add: endswith_def startswith_prefix suffix_to_prefix)

lemma sub_area_3to8_cases:
  assumes "\<forall>d \<in> set ds. is_digit d"
  shows "sub_area_3to8 (stem @ ''_area'' @ ds @ ''_mask.tif'') = stem \<or>
   sub_area_3to8 (stem @ ''_area'' @ ds @ ''_mask.tif'') = stem @ ''_area'' @ ds @ ''_mask.tif''"
proof -
  let ?pre = "stem @ ''_area'' @ ds"
  let ?b = "stem @ ''_area'' @ ds @ ''_mask.tif''"
  have b: "?b = ?pre @ ''_mask.tif''" by simp
  have c: "chop 9 (?pre @ ''_mask.tif'') = ?pre" by (rule chop_append) simp
  have e1: "endswith (?pre @ ''_mask.tif'') ''_mask.tif''" by (rule endswith_append_same)
  have s: "sub_area_3to8 ?b =
      (case drop (length ?pre - 3) ?pre of
         [d0, d1, d2] \<Rightarrow>
           if d0 \<in> set ''345678'' \<and> is_digit d1 \<and> is_digit d2 \<and>
              endswith (chop 3 ?pre) ''_area''
           then chop 5 (chop 3 ?pre) @ [] else ?b
       | _ \<Rightarrow> ?b)"
    unfolding b sub_area_3to8_def split_dollar_tif
    by (simp only: prod.case e1 if_True Let_def c)
  show ?thesis
  proof (cases "\<exists>d0 d1 d2. drop (length ?pre - 3) ?pre = [d0, d1, d2] \<and>
      d0 \<in> set ''345678'' \<and> is_digit d1 \<and> is_digit d2 \<and> endswith (chop 3 ?pre) ''_area''")
    case False
    then have "sub_area_3to8 ?b = ?b"
      unfolding s by (auto split: list.splits)
    then show ?thesis by simp
  next
    case True
    then obtain d0 d1 d2 where d: "drop (length ?pre - 3) ?pre = [d0, d1, d2]"
      and dig: "d0 \<in> set ''345678''" "is_digit d1" "is_digit d2"
      and e: "endswith (chop 3 ?pre) ''_area''" by blast
    have r: "sub_area_3to8 ?b = chop 5 (chop 3 ?pre)"
      unfolding s d using dig e by simp
    from e obtain X where X: "chop 3 ?pre = X @ ''_area''"
      by (auto simp: endswith_suffix suffix_def)
    have "?pre = chop 3 ?pre @ drop (length ?pre - 3) ?pre"
      by (simp add: chop_def)
    with X d have p: "?pre = X @ ''_area'' @ [d0, d1, d2]" by simp
    from dig(1) have "is_digit d0" by (auto simp: is_digit_def)
    with dig have "\<forall>x \<in> set [d0, d1, d2]. is_digit x" by simp
    then have "takeWhile is_digit (rev (X @ ''_area'' @ [d0, d1, d2])) = rev [d0, d1, d2]"
      by (rule takeWhile_digits_rev)
    moreover have "takeWhile is_digit (rev ?pre) = rev ds"
      using assms by (rule takeWhile_digits_rev)
    ultimately have "ds = [d0, d1, d2]" using p by (metis rev_rev_ident)
    with p have "X = stem" by simp
    with X have "chop 5 (chop 3 ?pre) = stem"
      using chop_append [of 5 "''_area''" stem] by simp
    with r show ?thesis by simp
  qed
qed

lemma sub_mask_strips: "sub_mask (s @ ''_mask.tif'') = s"
proof -
  have "chop 9 (s @ ''_mask.tif'') = s" by (rule chop_append) simp
  then show ?thesis
    unfolding sub_mask_def split_dollar_tif
    by (simp only: prod.case endswith_append_same if_True append_Nil2)
qed

text \<open>
  Every name with an area suffix: the suffix \<^verbatim>\<open>_area<digits>_mask.tif\<close> is stripped,
  unless the stem before it ends in \<^verbatim>\<open>_mask\<close>; then only \<^verbatim>\<open>_mask.tif\<close> is stripped.
\<close>

lemma cellName_area_suffix:
  assumes "ds \<noteq> []" "\<forall>d \<in> set ds. is_digit d"
  shows "cellName (stem @ ''_area'' @ ds @ ''_mask.tif'') =
     (if endswith stem ''_mask'' then stem @ ''_area'' @ ds else stem)"
proof -
  let ?b = "stem @ ''_area'' @ ds @ ''_mask.tif''"
  have ne: "stem \<noteq> ?b" by (auto dest: arg_cong [where f = length])
  have c2: "(if sub_area_3to8 ?b = ?b then sub_area_digits ?b else sub_area_3to8 ?b) = stem"
    using sub_area_3to8_cases [OF assms(2), of stem] sub_area_digits_strips [OF assms, of stem]
    by auto
  have "sub_mask ?b = stem @ ''_area'' @ ds"
    using sub_mask_strips [of "stem @ ''_area'' @ ds"] by simp
  then show ?thesis
    unfolding cellName_def Let_def c2 using ne by simp
qed

end
